theory Spec2Isabelle
  imports Main "HOL-Library.Multiset" "HOL-Library.Sublist"
begin

section \<open>The policy-driven LRU cache of package policylru\<close>

text \<open>
  The cache of \<^verbatim>\<open>lru.go\<close> keeps a \<^verbatim>\<open>container/list\<close> list of elements, each
  pointing to an entry (key, value), and a Go map from keys to list elements. An entry is
  shared between the list and the map and its value is overwritten in place by an update,
  so the model has an explicit store: a list element and the entry it points to are one
  address of the heap, the list is the sequence of its addresses from front to back, and
  the map sends a key to an address.

  Policies and handlers are interfaces implemented by the caller. Their methods may read
  and write state of their own (the running total of the size-based policy in
  \<^verbatim>\<open>example_test.go\<close>, the slices the tests append to): that state is the component
  \<open>env\<close> of the world, of an arbitrary type \<open>'s\<close>, and a method is a function on it.
  The methods do not see the heap of the cache: the fields \<^verbatim>\<open>ll\<close> and \<^verbatim>\<open>cache\<close> and the
  type \<^verbatim>\<open>entry\<close> are unexported, and calling back into the cache from a method is
  outside the model. The component \<open>calls\<close> of the world is a ghost log of the calls
  the cache has made on its policy and handler, in order.
\<close>

subsection \<open>Data\<close>

text \<open>
  The field \<^verbatim>\<open>value\<close> of an entry is \<open>val\<close> here. The zero value of the value type
  (\<^verbatim>\<open>var old Value\<close>, and the result of a \<^verbatim>\<open>Get\<close> that misses) is \<open>0\<close> of the class
  \<open>zero\<close>. The counts are Go \<^verbatim>\<open>int\<close>s bounded by the number of elements of the list,
  which stays far below \<open>2 ^ 63\<close>; they are integers here. A nil \<^verbatim>\<open>*list.List\<close>, a nil
  map, a nil policy and a nil handler are \<open>None\<close>. The only panic the methods can
  raise is the dereference of a nil list.
\<close>

type_synonym addr = nat

record ('k, 'v) entry =
  key :: 'k
  val :: 'v

datatype ('k, 'v) call =
    AddedCall 'k 'v 'v bool
  | RemovedCall 'k 'v
  | EvictCall 'k 'v int

type_synonym ('k, 'v, 's) Policy = "'k \<Rightarrow> 'v \<Rightarrow> int \<Rightarrow> 's \<Rightarrow> bool \<times> 's"

record ('k, 'v, 's) Handler =
  Added :: "'k \<Rightarrow> 'v \<Rightarrow> 'v \<Rightarrow> bool \<Rightarrow> 's \<Rightarrow> 's"
  Removed :: "'k \<Rightarrow> 'v \<Rightarrow> 's \<Rightarrow> 's"

record ('k, 'v, 's) Cache =
  Policy :: "('k, 'v, 's) Policy option"
  Handler :: "('k, 'v, 's) Handler option"
  ll :: "addr list option"
  cache :: "('k \<rightharpoonup> addr) option"

record ('k, 'v, 's) world =
  heap :: "addr \<Rightarrow> ('k, 'v) entry"
  next_addr :: addr
  env :: 's
  calls :: "('k, 'v) call list"

datatype error = NilPointerDereference

subsection \<open>The operations of container/list the cache uses\<close>

text \<open>
  \<^verbatim>\<open>Back\<close> returns nil on an empty list. \<^verbatim>\<open>MoveToFront\<close> and \<^verbatim>\<open>Remove\<close> do nothing for
  an element that is not in the list. On a nil list \<^verbatim>\<open>Back\<close>, \<^verbatim>\<open>Len\<close> and \<^verbatim>\<open>PushFront\<close>
  dereference the nil pointer; \<^verbatim>\<open>MoveToFront\<close> and \<^verbatim>\<open>Remove\<close> compare the element's
  list with the receiver first and return.
\<close>

definition Back :: "addr list \<Rightarrow> addr option" where
  "Back l = (if l = [] then None else Some (last l))"

definition MoveToFront :: "addr \<Rightarrow> addr list \<Rightarrow> addr list" where
  "MoveToFront e l = (if e \<in> set l then e # remove1 e l else l)"

definition Remove_list :: "addr \<Rightarrow> addr list \<Rightarrow> addr list" where
  "Remove_list e l = remove1 e l"

subsection \<open>Calls on the handler and the policy\<close>

definition notify_Added ::
  "('k, 'v, 's) Handler option \<Rightarrow> 'k \<Rightarrow> 'v \<Rightarrow> 'v \<Rightarrow> bool \<Rightarrow> ('k, 'v, 's) world \<Rightarrow> ('k, 'v, 's) world" where
  "notify_Added h k old new update w =
     (case h of
        None \<Rightarrow> w
      | Some hdl \<Rightarrow> w\<lparr>env := Added hdl k old new update (env w),
                     calls := calls w @ [AddedCall k old new update]\<rparr>)"

definition notify_Removed ::
  "('k, 'v, 's) Handler option \<Rightarrow> 'k \<Rightarrow> 'v \<Rightarrow> ('k, 'v, 's) world \<Rightarrow> ('k, 'v, 's) world" where
  "notify_Removed h k v w =
     (case h of
        None \<Rightarrow> w
      | Some hdl \<Rightarrow> w\<lparr>env := Removed hdl k v (env w),
                     calls := calls w @ [RemovedCall k v]\<rparr>)"

definition ask_Evict ::
  "('k, 'v, 's) Policy \<Rightarrow> 'k \<Rightarrow> 'v \<Rightarrow> int \<Rightarrow> ('k, 'v, 's) world \<Rightarrow> bool \<times> ('k, 'v, 's) world" where
  "ask_Evict p k v n w =
     (fst (p k v n (env w)),
      w\<lparr>env := snd (p k v n (env w)), calls := calls w @ [EvictCall k v n]\<rparr>)"

subsection \<open>lru.go\<close>

definition NewWithHandler ::
  "('k, 'v, 's) Policy option \<Rightarrow> ('k, 'v, 's) Handler option \<Rightarrow> ('k, 'v, 's) Cache" where
  "NewWithHandler policy handler =
     \<lparr>Policy = policy, Handler = handler, ll = Some [], cache = Some Map.empty\<rparr>"

definition New :: "('k, 'v, 's) Policy option \<Rightarrow> ('k, 'v, 's) Cache" where
  "New policy = NewWithHandler policy None"

text \<open>
  A cache that no constructor has made: the composite literal
  \<^verbatim>\<open>Cache[K, V]{Policy: p, Handler: h}\<close>, or \<^verbatim>\<open>var c Cache[K, V]\<close> when both are nil.
\<close>

definition zero_Cache ::
  "('k, 'v, 's) Policy option \<Rightarrow> ('k, 'v, 's) Handler option \<Rightarrow> ('k, 'v, 's) Cache" where
  "zero_Cache policy handler =
     \<lparr>Policy = policy, Handler = handler, ll = None, cache = None\<rparr>"

definition removeElement ::
  "addr \<Rightarrow> 'k \<Rightarrow> ('k, 'v, 's) Cache \<Rightarrow> ('k, 'v, 's) world \<Rightarrow> ('k, 'v, 's) Cache \<times> ('k, 'v, 's) world" where
  "removeElement ele k c w =
     (c\<lparr>ll := map_option (Remove_list ele) (ll c),
        cache := map_option (\<lambda>m. m(k := None)) (cache c)\<rparr>,
      notify_Removed (Handler c) k (val (heap w ele)) w)"

text \<open>
  The loop of \<^verbatim>\<open>Evict\<close>, entered with the policy \<open>p\<close> read before it and the counter
  \<open>n\<close>. Each round reads \<^verbatim>\<open>c.ll.Back()\<close>.
\<close>

function evict_loop ::
  "('k, 'v, 's) Policy \<Rightarrow> int \<Rightarrow> ('k, 'v, 's) Cache \<Rightarrow> ('k, 'v, 's) world
     \<Rightarrow> error + (int \<times> ('k, 'v, 's) Cache \<times> ('k, 'v, 's) world)" where
  "evict_loop p n c w =
     (case ll c of
        None \<Rightarrow> Inl NilPointerDereference
      | Some l \<Rightarrow>
          (case Back l of
             None \<Rightarrow> Inr (n, c, w)
           | Some ele \<Rightarrow>
               if fst (ask_Evict p (key (heap w ele)) (val (heap w ele)) (int (length l)) w)
               then evict_loop p (n + 1)
                      (fst (removeElement ele (key (heap w ele)) c
                         (snd (ask_Evict p (key (heap w ele)) (val (heap w ele)) (int (length l)) w))))
                      (snd (removeElement ele (key (heap w ele)) c
                         (snd (ask_Evict p (key (heap w ele)) (val (heap w ele)) (int (length l)) w))))
               else Inr (n, c, snd (ask_Evict p (key (heap w ele)) (val (heap w ele)) (int (length l)) w))))"
  by pat_completeness auto

termination
proof (relation "measure (\<lambda>(p, n, c, w). case ll c of None \<Rightarrow> 0 | Some l \<Rightarrow> length l)")
  show "wf (measure (\<lambda>(p, n, c, w). case ll c of None \<Rightarrow> 0 | Some l \<Rightarrow> length l))"
    by simp
next
  fix p :: "('k, 'v, 's) Policy" and n :: int and c :: "('k, 'v, 's) Cache"
    and w :: "('k, 'v, 's) world" and l ele
  assume l: "ll c = Some l" and b: "Back l = Some ele"
  from b have "l \<noteq> []" and "ele = last l"
    by (auto simp: Back_def split: if_splits)
  then have "ele \<in> set l" by simp
  then have "length (remove1 ele l) < length l"
    by (simp add: length_remove1) (use \<open>l \<noteq> []\<close> in simp)
  then show "((p, n + 1,
        fst (removeElement ele (key (heap w ele)) c
               (snd (ask_Evict p (key (heap w ele)) (val (heap w ele)) (int (length l)) w))),
        snd (removeElement ele (key (heap w ele)) c
               (snd (ask_Evict p (key (heap w ele)) (val (heap w ele)) (int (length l)) w)))),
       p, n, c, w)
      \<in> measure (\<lambda>(p, n, c, w). case ll c of None \<Rightarrow> 0 | Some l \<Rightarrow> length l)"
    using l by (simp add: removeElement_def Remove_list_def)
qed

definition Evict ::
  "('k, 'v, 's) Cache \<Rightarrow> ('k, 'v, 's) world \<Rightarrow> error + (int \<times> ('k, 'v, 's) Cache \<times> ('k, 'v, 's) world)" where
  "Evict c w = (case Policy c of None \<Rightarrow> Inr (0, c, w) | Some p \<Rightarrow> evict_loop p 0 c w)"

text \<open>
  \<^verbatim>\<open>Add\<close> first materialises the list and the map when the map is nil. In the update
  branch it returns after the notification; in the insert branch it pushes a new element,
  notifies with the zero value of the value type as old value, and calls \<^verbatim>\<open>Evict\<close>,
  dropping the count. After the first statement the map is not nil, so the first
  \<open>None\<close> case of the match on it is never taken.
\<close>

definition Add ::
  "'k \<Rightarrow> 'v::zero \<Rightarrow> ('k, 'v, 's) Cache \<Rightarrow> ('k, 'v, 's) world
     \<Rightarrow> error + (('k, 'v, 's) Cache \<times> ('k, 'v, 's) world)" where
  "Add k v c0 w =
     (let c = (if cache c0 = None then c0\<lparr>ll := Some [], cache := Some Map.empty\<rparr> else c0);
          h = Handler c
      in case cache c of
           None \<Rightarrow> Inl NilPointerDereference
         | Some m \<Rightarrow>
             (case m k of
                Some ele \<Rightarrow>
                  let c1 = c\<lparr>ll := map_option (MoveToFront ele) (ll c)\<rparr>;
                      old = val (heap w ele);
                      w1 = w\<lparr>heap := (heap w)(ele := (heap w ele)\<lparr>val := v\<rparr>)\<rparr>
                  in Inr (c1, notify_Added h k old v True w1)
              | None \<Rightarrow>
                  (case ll c of
                     None \<Rightarrow> Inl NilPointerDereference
                   | Some l \<Rightarrow>
                       let ele = next_addr w;
                           w1 = w\<lparr>heap := (heap w)(ele := \<lparr>key = k, val = v\<rparr>),
                                  next_addr := Suc ele\<rparr>;
                           c1 = c\<lparr>ll := Some (ele # l)\<rparr>;
                           c2 = c1\<lparr>cache := Some (m(k \<mapsto> ele))\<rparr>;
                           w2 = notify_Added h k 0 v False w1
                       in map_sum id snd (Evict c2 w2))))"

definition Get ::
  "'k \<Rightarrow> ('k, 'v, 's) Cache \<Rightarrow> ('k, 'v, 's) world
     \<Rightarrow> ('v::zero \<times> bool) \<times> ('k, 'v, 's) Cache \<times> ('k, 'v, 's) world" where
  "Get k c w =
     (case cache c of
        None \<Rightarrow> ((0, False), c, w)
      | Some m \<Rightarrow>
          (case m k of
             None \<Rightarrow> ((0, False), c, w)
           | Some ele \<Rightarrow>
               ((val (heap w ele), True), c\<lparr>ll := map_option (MoveToFront ele) (ll c)\<rparr>, w)))"

definition Remove ::
  "'k \<Rightarrow> ('k, 'v, 's) Cache \<Rightarrow> ('k, 'v, 's) world
     \<Rightarrow> bool \<times> ('k, 'v, 's) Cache \<times> ('k, 'v, 's) world" where
  "Remove k c w =
     (case cache c of
        None \<Rightarrow> (False, c, w)
      | Some m \<Rightarrow>
          (case m k of
             None \<Rightarrow> (False, c, w)
           | Some ele \<Rightarrow> (True, removeElement ele k c w)))"

definition Len :: "('k, 'v, 's) Cache \<Rightarrow> error + int" where
  "Len c =
     (case cache c of
        None \<Rightarrow> Inr 0
      | Some m \<Rightarrow> (case ll c of None \<Rightarrow> Inl NilPointerDereference | Some l \<Rightarrow> Inr (int (length l))))"


definition Clear ::
  "'k list \<Rightarrow> ('k, 'v, 's) Cache \<Rightarrow> ('k, 'v, 's) world \<Rightarrow> ('k, 'v, 's) Cache \<times> ('k, 'v, 's) world" where
  "Clear ord c w =
     (let cache0 = cache c;
          c1 = c\<lparr>ll := None\<rparr>;
          c2 = c1\<lparr>cache := None\<rparr>;
          h = Handler c2
      in (c2,
          case h of
            None \<Rightarrow> w
          | Some hdl \<Rightarrow>
              foldl (\<lambda>w' ele. notify_Removed h (key (heap w' ele)) (val (heap w' ele)) w') w
                (case cache0 of None \<Rightarrow> [] | Some m \<Rightarrow> List.map_filter m ord)))"

subsection \<open>builtin.go\<close>

definition MaxCount :: "int \<Rightarrow> ('k, 'v, 's) Policy" where
  "MaxCount p = (\<lambda>k v n s. (n > p, s))"

subsection \<open>Programs: sequences of calls\<close>

datatype ('k, 'v) op =
    OpAdd 'k 'v
  | OpGet 'k
  | OpRemove 'k
  | OpEvict
  | OpLen
  | OpClear "'k list"

datatype 'v ret = RetUnit | RetGet 'v bool | RetBool bool | RetInt int

fun exec ::
  "('k, 'v::zero) op \<Rightarrow> ('k, 'v, 's) Cache \<Rightarrow> ('k, 'v, 's) world
     \<Rightarrow> error + ('v ret \<times> ('k, 'v, 's) Cache \<times> ('k, 'v, 's) world)" where
  "exec (OpAdd k v) c w = map_sum id (Pair RetUnit) (Add k v c w)"
| "exec (OpGet k) c w = Inr (RetGet (fst (fst (Get k c w))) (snd (fst (Get k c w))), snd (Get k c w))"
| "exec (OpRemove k) c w = Inr (RetBool (fst (Remove k c w)), snd (Remove k c w))"
| "exec OpEvict c w = map_sum id (\<lambda>(n, cw). (RetInt n, cw)) (Evict c w)"
| "exec OpLen c w = map_sum id (\<lambda>n. (RetInt n, c, w)) (Len c)"
| "exec (OpClear ord) c w = Inr (RetUnit, Clear ord c w)"

text \<open>A panic ends the program: the calls after it do not run.\<close>

fun run ::
  "('k, 'v::zero) op list \<Rightarrow> ('k, 'v, 's) Cache \<Rightarrow> ('k, 'v, 's) world
     \<Rightarrow> error + ('v ret list \<times> ('k, 'v, 's) Cache \<times> ('k, 'v, 's) world)" where
  "run [] c w = Inr ([], c, w)"
| "run (x # xs) c w =
     (case exec x c w of
        Inl e \<Rightarrow> Inl e
      | Inr (r, c', w') \<Rightarrow> map_sum id (\<lambda>(rs, cw). (r # rs, cw)) (run xs c' w'))"

section \<open>What the claims speak of\<close>

subsection \<open>The abstract view of a cache\<close>

text \<open>
  The entries of the cache from front to back, their keys, and the value stored under a
  key. The size of the index is \<^verbatim>\<open>len(c.cache)\<close>, which is 0 for a nil map.
\<close>

definition entries :: "('k, 'v, 's) Cache \<Rightarrow> ('k, 'v, 's) world \<Rightarrow> ('k, 'v) entry list" where
  "entries c w = (case ll c of None \<Rightarrow> [] | Some l \<Rightarrow> map (heap w) l)"

definition keys_of :: "('k, 'v, 's) Cache \<Rightarrow> ('k, 'v, 's) world \<Rightarrow> 'k list" where
  "keys_of c w = map key (entries c w)"

definition stored :: "'k \<Rightarrow> ('k, 'v) entry list \<Rightarrow> 'v option" where
  "stored k es = map_option val (List.find (\<lambda>e. key e = k) es)"


text \<open>
  The representation invariant: the list and the map are nil together, and otherwise the
  list holds each element once, every element was allocated, and the map sends a key to
  an element exactly when that element is in the list and its entry has that key.
\<close>

definition rep_inv :: "('k, 'v, 's) Cache \<Rightarrow> ('k, 'v, 's) world \<Rightarrow> bool" where
  "rep_inv c w =
     (case ll c of
        None \<Rightarrow> cache c = None
      | Some l \<Rightarrow>
          (case cache c of
             None \<Rightarrow> False
           | Some m \<Rightarrow>
               distinct l \<and> (\<forall>a\<in>set l. a < next_addr w) \<and>
               (\<forall>k a. m k = Some a \<longleftrightarrow> a \<in> set l \<and> key (heap w a) = k)))"

subsection \<open>What a notification does to the world\<close>

definition Removed_effect :: "('k, 'v, 's) Handler option \<Rightarrow> 'k \<Rightarrow> 'v \<Rightarrow> 's \<Rightarrow> 's" where
  "Removed_effect h k v s = (case h of None \<Rightarrow> s | Some hdl \<Rightarrow> Removed hdl k v s)"

definition Removed_log :: "('k, 'v, 's) Handler option \<Rightarrow> 'k \<Rightarrow> 'v \<Rightarrow> ('k, 'v) call list" where
  "Removed_log h k v = (case h of None \<Rightarrow> [] | Some hdl \<Rightarrow> [RemovedCall k v])"

definition Added_effect ::
  "('k, 'v, 's) Handler option \<Rightarrow> 'k \<Rightarrow> 'v \<Rightarrow> 'v \<Rightarrow> bool \<Rightarrow> 's \<Rightarrow> 's" where
  "Added_effect h k old new u s = (case h of None \<Rightarrow> s | Some hdl \<Rightarrow> Added hdl k old new u s)"

definition Added_log ::
  "('k, 'v, 's) Handler option \<Rightarrow> 'k \<Rightarrow> 'v \<Rightarrow> 'v \<Rightarrow> bool \<Rightarrow> ('k, 'v) call list" where
  "Added_log h k old new u = (case h of None \<Rightarrow> [] | Some hdl \<Rightarrow> [AddedCall k old new u])"

subsection \<open>The eviction sweep as the specification words it\<close>

text \<open>
  Written from the specification, not from the code, on the entries from front to back:
  inspect the back-most entry; ask the policy with its key, its value and the count
  before this removal; on true remove the entry, fire the removal notification, count it
  and inspect the new back-most entry; on false, or when no entry is left, stop. The
  result is the count, the entries left, the state of the callers' world and the calls
  made, in order.
\<close>

function sweep_spec ::
  "('k, 'v, 's) Policy \<Rightarrow> ('k, 'v, 's) Handler option \<Rightarrow> ('k, 'v) entry list \<Rightarrow> 's
     \<Rightarrow> int \<times> ('k, 'v) entry list \<times> 's \<times> ('k, 'v) call list" where
  "sweep_spec p h es s =
     (if es = [] then (0, es, s, [])
      else if fst (p (key (last es)) (val (last es)) (int (length es)) s)
      then (case sweep_spec p h (butlast es)
                   (Removed_effect h (key (last es)) (val (last es))
                      (snd (p (key (last es)) (val (last es)) (int (length es)) s))) of
              (n, es', s', cs) \<Rightarrow>
                (n + 1, es', s',
                 EvictCall (key (last es)) (val (last es)) (int (length es))
                   # Removed_log h (key (last es)) (val (last es)) @ cs))
      else (0, es, snd (p (key (last es)) (val (last es)) (int (length es)) s),
            [EvictCall (key (last es)) (val (last es)) (int (length es))]))"
  by pat_completeness auto

termination
  by (relation "measure (\<lambda>(p, h, es, s). length es)") auto

text \<open>The sweep of a cache whose policy may be nil: without a policy nothing happens.\<close>

definition sweep_policy ::
  "('k, 'v, 's) Policy option \<Rightarrow> ('k, 'v, 's) Handler option \<Rightarrow> ('k, 'v) entry list \<Rightarrow> 's
     \<Rightarrow> int \<times> ('k, 'v) entry list \<times> 's \<times> ('k, 'v) call list" where
  "sweep_policy policy h es s =
     (case policy of None \<Rightarrow> (0, es, s, []) | Some p \<Rightarrow> sweep_spec p h es s)"

subsection \<open>Touches\<close>

text \<open>
  A call touches a key when it is an \<^verbatim>\<open>Add\<close> of the key (an insertion or an update) or a
  \<^verbatim>\<open>Get\<close> of the key that reports a hit. \<open>touches\<close> lists the keys a program touches,
  in the order of the calls; \<open>most_recent_first\<close> orders the touched keys by their last
  touch, the latest first.
\<close>

fun touch :: "('k, 'v::zero) op \<Rightarrow> ('k, 'v, 's) Cache \<Rightarrow> ('k, 'v, 's) world \<Rightarrow> 'k list" where
  "touch (OpAdd k v) c w = [k]"
| "touch (OpGet k) c w = (if snd (fst (Get k c w)) then [k] else [])"
| "touch x c w = []"

fun touches :: "('k, 'v::zero) op list \<Rightarrow> ('k, 'v, 's) Cache \<Rightarrow> ('k, 'v, 's) world \<Rightarrow> 'k list" where
  "touches [] c w = []"
| "touches (x # xs) c w =
     touch x c w @ (case exec x c w of Inl e \<Rightarrow> [] | Inr (r, c', w') \<Rightarrow> touches xs c' w')"

definition most_recent_first :: "'k list \<Rightarrow> 'k list" where
  "most_recent_first ts = rev (remdups ts)"

fun Add_or_Get :: "('k, 'v) op \<Rightarrow> bool" where
  "Add_or_Get (OpAdd k v) = True"
| "Add_or_Get (OpGet k) = True"
| "Add_or_Get x = False"

subsection \<open>Concrete caches for the examples\<close>

text \<open>
  A world with nothing allocated, a handler that counts its calls in the callers' state,
  a policy that evicts every entry it is asked about, and a policy that evicts an entry
  whose value exceeds 100.
\<close>

definition world0 :: "(int, int, nat) world" where
  "world0 = \<lparr>heap = (\<lambda>a. \<lparr>key = 0, val = 0\<rparr>), next_addr = 0, env = 0, calls = []\<rparr>"

definition counting :: "(int, int, nat) Handler" where
  "counting = \<lparr>Added = (\<lambda>k old new u s. s + 1), Removed = (\<lambda>k v s. s + 1)\<rparr>"

definition evict_all :: "('k, 'v, 's) Policy" where
  "evict_all = (\<lambda>k v n s. (True, s))"

definition evict_large :: "('k, int, 's) Policy" where
  "evict_large = (\<lambda>k v n s. (v > 100, s))"

text \<open>What a test observes of a run: the results of the calls, the entries, the calls made.\<close>

definition observe ::
  "error + ('r \<times> ('k, 'v, 's) Cache \<times> ('k, 'v, 's) world)
     \<Rightarrow> error + ('r \<times> ('k \<times> 'v) list \<times> ('k, 'v) call list)" where
  "observe r =
     map_sum id (\<lambda>(rs, c, w). (rs, map (\<lambda>e. (key e, val e)) (entries c w), calls w)) r"

text \<open>A call that is an \<^verbatim>\<open>Added\<close> notification.\<close>

fun Added_call :: "('k, 'v) call \<Rightarrow> bool" where
  "Added_call (AddedCall k old new u) = True"
| "Added_call x = False"

text \<open>
  A cache of three entries, keys 3, 2, 1 from front to back, as three calls of \<^verbatim>\<open>Add\<close> leave
  it, with the policy field then set to a maximum count of 1.
\<close>

definition cache3 :: "(int, int, nat) Cache" where
  "cache3 = \<lparr>Policy = Some (MaxCount 1), Handler = Some counting,
             ll = Some [2, 1, 0], cache = Some [1 \<mapsto> 0, 2 \<mapsto> 1, 3 \<mapsto> 2]\<rparr>"

definition world3 :: "(int, int, nat) world" where
  "world3 = \<lparr>heap = (\<lambda>a. \<lparr>key = 0, val = 0\<rparr>)
                (0 := \<lparr>key = 1, val = 10\<rparr>, 1 := \<lparr>key = 2, val = 20\<rparr>, 2 := \<lparr>key = 3, val = 30\<rparr>),
             next_addr = 3, env = 3, calls = []\<rparr>"

section \<open>Lemmas\<close>

declare evict_loop.simps [simp del]
declare sweep_spec.simps [simp del]

subsection \<open>The invariant and the eviction loop\<close>

lemma heap_notify_Removed [simp]: "heap (notify_Removed h k v w) = heap w"
  and next_notify_Removed [simp]: "next_addr (notify_Removed h k v w) = next_addr w"
  by (auto simp: notify_Removed_def split: option.splits)

lemma heap_notify_Added [simp]: "heap (notify_Added h k old new u w) = heap w"
  and next_notify_Added [simp]: "next_addr (notify_Added h k old new u w) = next_addr w"
  by (auto simp: notify_Added_def split: option.splits)

lemma heap_ask_Evict [simp]: "heap (snd (ask_Evict p k v n w)) = heap w"
  and next_ask_Evict [simp]: "next_addr (snd (ask_Evict p k v n w)) = next_addr w"
  by (auto simp: ask_Evict_def)

lemma rep_inv_cong:
  "heap w' = heap w \<Longrightarrow> next_addr w' = next_addr w \<Longrightarrow> ll c' = ll c \<Longrightarrow> cache c' = cache c
     \<Longrightarrow> rep_inv c' w' = rep_inv c w"
  by (simp add: rep_inv_def split: option.splits)

lemma rep_inv_Some:
  "ll c = Some l \<Longrightarrow> cache c = Some m \<Longrightarrow>
   rep_inv c w \<longleftrightarrow>
     distinct l \<and> (\<forall>a\<in>set l. a < next_addr w) \<and>
     (\<forall>k a. m k = Some a \<longleftrightarrow> a \<in> set l \<and> key (heap w a) = k)"
  by (simp add: rep_inv_def)

lemma rep_inv_cache:
  "rep_inv c w \<Longrightarrow> ll c = Some l \<Longrightarrow> \<exists>m. cache c = Some m"
  by (auto simp: rep_inv_def split: option.splits)

lemma rep_inv_ll:
  "rep_inv c w \<Longrightarrow> cache c = Some m \<Longrightarrow> \<exists>l. ll c = Some l"
  by (auto simp: rep_inv_def split: option.splits)

lemma rep_inv_None: "rep_inv c w \<Longrightarrow> ll c = None \<longleftrightarrow> cache c = None"
  by (auto simp: rep_inv_def split: option.splits)

lemma rep_inv_key_inj:
  assumes "rep_inv c w" and "ll c = Some l" and "a \<in> set l" and "b \<in> set l"
    and "key (heap w a) = key (heap w b)"
  shows "a = b"
proof -
  from assms(1,2) obtain m where m: "cache c = Some m"
    by (auto dest: rep_inv_cache)
  with assms have "m (key (heap w b)) = Some a" and "m (key (heap w b)) = Some b"
    by (simp_all add: rep_inv_Some)
  then show ?thesis by simp
qed

lemma rep_inv_NewWithHandler: "rep_inv (NewWithHandler p h) w"
  by (simp add: rep_inv_def NewWithHandler_def)

lemma rep_inv_zero_Cache: "rep_inv (zero_Cache p h) w"
  by (simp add: rep_inv_def zero_Cache_def)

lemma ll_removeElement:
  "ll (fst (removeElement a k c w)) = map_option (remove1 a) (ll c)"
  and cache_removeElement:
  "cache (fst (removeElement a k c w)) = map_option (\<lambda>m. m(k := None)) (cache c)"
  and Policy_removeElement: "Policy (fst (removeElement a k c w)) = Policy c"
  and Handler_removeElement: "Handler (fst (removeElement a k c w)) = Handler c"
  and heap_removeElement: "heap (snd (removeElement a k c w)) = heap w"
  and next_removeElement: "next_addr (snd (removeElement a k c w)) = next_addr w"
  by (simp_all add: removeElement_def Remove_list_def [abs_def])

lemma rep_inv_removeElement:
  assumes inv: "rep_inv c w" and l: "ll c = Some l" and a: "a \<in> set l"
  shows "rep_inv (fst (removeElement a (key (heap w a)) c w)) (snd (removeElement a (key (heap w a)) c w))"
proof -
  from inv l obtain m where m: "cache c = Some m"
    by (auto dest: rep_inv_cache)
  have inj: "\<And>b. b \<in> set l \<Longrightarrow> key (heap w b) = key (heap w a) \<Longrightarrow> b = a"
    using rep_inv_key_inj [OF inv l _ a] by blast
  from inv l m have d: "distinct l" and lt: "\<forall>a\<in>set l. a < next_addr w"
    and mk: "\<And>k b. m k = Some b \<longleftrightarrow> b \<in> set l \<and> key (heap w b) = k"
    by (simp_all add: rep_inv_Some)
  have "rep_inv (fst (removeElement a (key (heap w a)) c w)) (snd (removeElement a (key (heap w a)) c w))
      \<longleftrightarrow> distinct (remove1 a l) \<and> (\<forall>b\<in>set (remove1 a l). b < next_addr w) \<and>
        (\<forall>k b. (m(key (heap w a) := None)) k = Some b \<longleftrightarrow> b \<in> set (remove1 a l) \<and> key (heap w b) = k)"
    by (rule trans [OF rep_inv_Some [where l = "remove1 a l" and m = "m(key (heap w a) := None)"]])
       (simp_all add: ll_removeElement cache_removeElement heap_removeElement next_removeElement l m)
  moreover have "distinct (remove1 a l)" using d by simp
  moreover have "\<forall>b\<in>set (remove1 a l). b < next_addr w" using lt d by simp
  moreover have "\<forall>k b. (m(key (heap w a) := None)) k = Some b \<longleftrightarrow> b \<in> set (remove1 a l) \<and> key (heap w b) = k"
    using d mk inj by (auto simp: set_remove1_eq)
  ultimately show ?thesis by blast
qed


lemma ask_Evict_simps [simp]:
  "fst (ask_Evict p k v n w) = fst (p k v n (env w))"
  "env (snd (ask_Evict p k v n w)) = snd (p k v n (env w))"
  "calls (snd (ask_Evict p k v n w)) = calls w @ [EvictCall k v n]"
  by (simp_all add: ask_Evict_def)

lemma notify_Removed_simps [simp]:
  "env (notify_Removed h k v w) = Removed_effect h k v (env w)"
  "calls (notify_Removed h k v w) = calls w @ Removed_log h k v"
  by (simp_all add: notify_Removed_def Removed_effect_def Removed_log_def split: option.splits)

lemma notify_Added_simps [simp]:
  "env (notify_Added h k old new u w) = Added_effect h k old new u (env w)"
  "calls (notify_Added h k old new u w) = calls w @ Added_log h k old new u"
  by (simp_all add: notify_Added_def Added_effect_def Added_log_def split: option.splits)

lemma env_removeElement:
  "env (snd (removeElement a k c w)) = Removed_effect (Handler c) k (val (heap w a)) (env w)"
  and calls_removeElement:
  "calls (snd (removeElement a k c w)) = calls w @ Removed_log (Handler c) k (val (heap w a))"
  by (simp_all add: removeElement_def)

lemma sweep_Nil: "sweep_spec p h [] s = (0, [], s, [])"
  by (simp add: sweep_spec.simps)

lemma sweep_snoc:
  "sweep_spec p h (es @ [e]) s =
     (if fst (p (key e) (val e) (1 + int (length es)) s)
      then (case sweep_spec p h es (Removed_effect h (key e) (val e) (snd (p (key e) (val e) (1 + int (length es)) s))) of
              (n, es', s', cs) \<Rightarrow>
                (n + 1, es', s',
                 EvictCall (key e) (val e) (1 + int (length es)) # Removed_log h (key e) (val e) @ cs))
      else (0, es @ [e], snd (p (key e) (val e) (1 + int (length es)) s),
            [EvictCall (key e) (val e) (1 + int (length es))]))"
  by (subst sweep_spec.simps) simp

lemma sweep_removes_back:
  "case sweep_spec p h es s of (n, es', s', cs) \<Rightarrow> 0 \<le> n \<and> es' = take (length es - nat n) es \<and> nat n \<le> length es"
proof (induction es arbitrary: s rule: rev_induct)
  case Nil
  show ?case by (simp add: sweep_Nil)
next
  case (snoc e es)
  show ?case
  proof (cases "fst (p (key e) (val e) (1 + int (length es)) s)")
    case False
    then show ?thesis by (simp add: sweep_snoc)
  next
    case True
    let ?s = "Removed_effect h (key e) (val e) (snd (p (key e) (val e) (1 + int (length es)) s))"
    obtain n es' s' cs where sw: "sweep_spec p h es ?s = (n, es', s', cs)"
      by (cases "sweep_spec p h es ?s") auto
    with snoc.IH [of ?s] have "0 \<le> n" "es' = take (length es - nat n) es" "nat n \<le> length es"
      by simp_all
    with True sw show ?thesis
      by (simp add: sweep_snoc nat_add_distrib Suc_diff_le)
  qed
qed


lemma evict_loop_sweep:
  assumes "rep_inv c w" and "ll c = Some l"
  shows "case sweep_spec p (Handler c) (map (heap w) l) (env w) of
           (k, es', s', cs) \<Rightarrow>
             \<exists>c' w'. evict_loop p n c w = Inr (n + k, c', w') \<and> rep_inv c' w' \<and>
               ll c' = Some (take (length l - nat k) l) \<and>
               Policy c' = Policy c \<and> Handler c' = Handler c \<and>
               heap w' = heap w \<and> next_addr w' = next_addr w \<and>
               env w' = s' \<and> calls w' = calls w @ cs"
  using assms
proof (induction l arbitrary: c w n rule: rev_induct)
  case Nil
  then show ?case
    by (subst evict_loop.simps) (simp add: sweep_Nil Back_def)
next
  case (snoc a xs)
  let ?e = "heap w a"
  let ?N = "1 + int (length xs)"
  let ?w1 = "snd (ask_Evict p (key ?e) (val ?e) ?N w)"
  have bk: "Back (xs @ [a]) = Some a" by (simp add: Back_def)
  have len: "int (length (xs @ [a])) = ?N" by simp
  have inv1: "rep_inv c ?w1"
    using snoc.prems(1) by (simp add: rep_inv_cong [of ?w1 w c c])
  show ?case
  proof (cases "fst (p (key ?e) (val ?e) ?N (env w))")
    case False
    have "evict_loop p n c w = Inr (n, c, ?w1)"
      by (subst evict_loop.simps) (simp add: snoc.prems bk False)
    with False snoc.prems inv1 show ?thesis
      by (simp add: sweep_snoc)
  next
    case True
    let ?c2 = "fst (removeElement a (key ?e) c ?w1)"
    let ?w2 = "snd (removeElement a (key ?e) c ?w1)"
    have step: "evict_loop p n c w = evict_loop p (n + 1) ?c2 ?w2"
      by (subst evict_loop.simps) (simp add: snoc.prems bk True)
    from snoc.prems inv1 have d: "distinct (xs @ [a])"
      by (auto dest: rep_inv_cache simp: rep_inv_Some)
    have "rep_inv (fst (removeElement a (key (heap ?w1 a)) c ?w1)) (snd (removeElement a (key (heap ?w1 a)) c ?w1))"
      by (rule rep_inv_removeElement [OF inv1 snoc.prems(2)]) simp
    then have inv2: "rep_inv ?c2 ?w2" by simp
    have ll2: "ll ?c2 = Some xs"
      using d by (simp add: ll_removeElement snoc.prems(2) remove1_append)
    let ?s2 = "Removed_effect (Handler c) (key ?e) (val ?e) (snd (p (key ?e) (val ?e) ?N (env w)))"
    have env2: "env ?w2 = ?s2"
      by (simp add: env_removeElement)
    have calls2: "calls ?w2 = calls w @ EvictCall (key ?e) (val ?e) ?N
        # Removed_log (Handler c) (key ?e) (val ?e)"
      by (simp add: calls_removeElement)
    have heap2: "heap ?w2 = heap w" and next2: "next_addr ?w2 = next_addr w"
      by (simp_all add: heap_removeElement next_removeElement)
    have H2: "Handler ?c2 = Handler c" and P2: "Policy ?c2 = Policy c"
      by (simp_all add: Handler_removeElement Policy_removeElement)
    obtain k es' s' cs where sw: "sweep_spec p (Handler c) (map (heap w) xs) ?s2 = (k, es', s', cs)"
      by (cases "sweep_spec p (Handler c) (map (heap w) xs) ?s2") auto
    from sweep_removes_back [where p = p and h = "Handler c" and es = "map (heap w) xs" and s = ?s2] sw
    have k: "0 \<le> k" "nat k \<le> length xs" by simp_all
    from snoc.IH [OF inv2 ll2, of "n + 1"] sw
    obtain c' w' where res: "evict_loop p (n + 1) ?c2 ?w2 = Inr (n + 1 + k, c', w')"
      and inv': "rep_inv c' w'" and ll': "ll c' = Some (take (length xs - nat k) xs)"
      and rest: "Policy c' = Policy c" "Handler c' = Handler c" "heap w' = heap w"
        "next_addr w' = next_addr w" "env w' = s'" "calls w' = calls ?w2 @ cs"
      by (auto simp: H2 P2 heap2 next2 env2)
    have tk: "take (length (xs @ [a]) - nat (k + 1)) (xs @ [a]) = take (length xs - nat k) xs"
      using k by (simp add: nat_add_distrib)
    show ?thesis
      using True sw step res inv' ll' rest tk
      by (simp add: sweep_snoc calls2 del: length_append)
  qed
qed

subsection \<open>Each operation on the abstract view\<close>

lemma entries_Some: "ll c = Some l \<Longrightarrow> entries c w = map (heap w) l"
  by (simp add: entries_def)

lemma entries_None: "ll c = None \<Longrightarrow> entries c w = []"
  by (simp add: entries_def)

lemma rep_inv_lookup:
  assumes "rep_inv c w" and "ll c = Some l" and "cache c = Some m"
  shows "m k = Some a \<longleftrightarrow> a \<in> set l \<and> key (heap w a) = k"
  using assms(1) unfolding rep_inv_Some [OF assms(2,3)] by blast

lemma filter_neq_remove1: "distinct l \<Longrightarrow> filter (\<lambda>b. b \<noteq> a) l = remove1 a l"
  by (induction l) (auto simp: remove1_idem)

lemma find_key_distinct:
  "distinct (map key es) \<Longrightarrow> e \<in> set es \<Longrightarrow> List.find (\<lambda>x. key x = key e) es = Some e"
  by (induction es) (auto simp: image_iff)

lemma find_key_absent:
  "k \<notin> key ` set es \<Longrightarrow> List.find (\<lambda>x. key x = k) es = None"
  by (induction es) auto

lemma rep_inv_distinct_keys:
  assumes "rep_inv c w" and "ll c = Some l"
  shows "distinct (map (\<lambda>a. key (heap w a)) l)"
proof -
  from assms obtain m where m: "cache c = Some m" by (auto dest: rep_inv_cache)
  from assms m have "distinct l" by (simp add: rep_inv_Some)
  moreover have "inj_on (\<lambda>a. key (heap w a)) (set l)"
    by (rule inj_onI) (rule rep_inv_key_inj [OF assms])
  ultimately show ?thesis by (simp add: distinct_map)
qed

lemma stored_present:
  assumes "rep_inv c w" and "ll c = Some l" and "cache c = Some m" and "m k = Some a"
  shows "stored k (entries c w) = Some (val (heap w a))"
proof -
  from rep_inv_lookup [OF assms(1,2,3), of k a] assms(4)
  have a: "a \<in> set l" "key (heap w a) = k" by simp_all
  have "distinct (map key (map (heap w) l))"
    using rep_inv_distinct_keys [OF assms(1,2)] by (simp add: comp_def)
  moreover have "heap w a \<in> set (map (heap w) l)" using a by simp
  ultimately have "List.find (\<lambda>x. key x = key (heap w a)) (map (heap w) l) = Some (heap w a)"
    by (rule find_key_distinct)
  then show ?thesis using a assms(2) by (simp add: stored_def entries_Some)
qed

lemma stored_absent:
  assumes "rep_inv c w" and "ll c = Some l" and "cache c = Some m" and "m k = None"
  shows "stored k (entries c w) = None"
proof -
  have "k \<notin> key ` set (map (heap w) l)"
  proof
    assume "k \<in> key ` set (map (heap w) l)"
    then obtain a where "a \<in> set l" "key (heap w a) = k" by auto
    with rep_inv_lookup [OF assms(1,2,3), of k a] have "m k = Some a" by simp
    with assms(4) show False by simp
  qed
  then show ?thesis using assms(2) by (simp add: stored_def entries_Some find_key_absent)
qed

lemma filter_other_keys:
  assumes "rep_inv c w" and "ll c = Some l" and "a \<in> set l"
  shows "filter (\<lambda>e. key e \<noteq> key (heap w a)) (map (heap w) l) = map (heap w) (remove1 a l)"
proof -
  from assms obtain m where m: "cache c = Some m" by (auto dest: rep_inv_cache)
  from assms m have d: "distinct l" by (simp add: rep_inv_Some)
  have "filter (\<lambda>e. key e \<noteq> key (heap w a)) (map (heap w) l)
      = map (heap w) (filter (\<lambda>b. key (heap w b) \<noteq> key (heap w a)) l)"
    by (simp add: filter_map comp_def)
  also have "filter (\<lambda>b. key (heap w b) \<noteq> key (heap w a)) l = filter (\<lambda>b. b \<noteq> a) l"
    by (rule filter_cong) (use rep_inv_key_inj [OF assms(1,2) _ assms(3)] in auto)
  also have "\<dots> = remove1 a l"
    using d by (rule filter_neq_remove1)
  finally show ?thesis .
qed

lemma Evict_abs:
  assumes inv: "rep_inv c w" and l: "ll c = Some l"
  shows "case sweep_policy (Policy c) (Handler c) (entries c w) (env w) of
           (n, es', s', cs) \<Rightarrow>
             \<exists>c' w'. Evict c w = Inr (n, c', w') \<and> rep_inv c' w' \<and> entries c' w' = es' \<and>
               ll c' = Some (take (length l - nat n) l) \<and>
               Policy c' = Policy c \<and> Handler c' = Handler c \<and>
               heap w' = heap w \<and> next_addr w' = next_addr w \<and>
               env w' = s' \<and> calls w' = calls w @ cs"
proof (cases "Policy c")
  case None
  with inv l show ?thesis
    by (simp add: sweep_policy_def Evict_def)
next
  case (Some p)
  obtain n es' s' cs where sw: "sweep_spec p (Handler c) (map (heap w) l) (env w) = (n, es', s', cs)"
    by (cases "sweep_spec p (Handler c) (map (heap w) l) (env w)") auto
  from sweep_removes_back [where p = p and h = "Handler c" and es = "map (heap w) l" and s = "env w"] sw
  have es': "es' = take (length l - nat n) (map (heap w) l)" by simp
  from evict_loop_sweep [OF inv l, of p 0] sw
  obtain c' w' where "evict_loop p 0 c w = Inr (n, c', w')" "rep_inv c' w'"
    "ll c' = Some (take (length l - nat n) l)" "Policy c' = Policy c" "Handler c' = Handler c"
    "heap w' = heap w" "next_addr w' = next_addr w" "env w' = s'" "calls w' = calls w @ cs"
    by auto
  with Some sw es' l show ?thesis
    by (simp add: sweep_policy_def Evict_def entries_Some take_map)
qed


lemma Add_update:
  assumes inv: "rep_inv c w" and l: "ll c = Some l" and m: "cache c = Some m" and a: "m k = Some a"
  shows "\<exists>c' w'. Add k v c w = Inr (c', w') \<and> rep_inv c' w' \<and>
           Policy c' = Policy c \<and> Handler c' = Handler c \<and>
           ll c' = Some (a # remove1 a l) \<and> cache c' = Some m \<and>
           entries c' w' = \<lparr>key = k, val = v\<rparr> # filter (\<lambda>e. key e \<noteq> k) (entries c w) \<and>
           env w' = Added_effect (Handler c) k (val (heap w a)) v True (env w) \<and>
           calls w' = calls w @ Added_log (Handler c) k (val (heap w a)) v True"
proof -
  from rep_inv_lookup [OF inv l m, of k a] a have al: "a \<in> set l" and ka: "key (heap w a) = k"
    by simp_all
  from inv l m have d: "distinct l" and lt: "\<forall>b\<in>set l. b < next_addr w"
    by (simp_all add: rep_inv_Some)
  let ?c' = "c\<lparr>ll := Some (a # remove1 a l)\<rparr>"
  let ?h' = "(heap w)(a := (heap w a)\<lparr>val := v\<rparr>)"
  let ?w' = "notify_Added (Handler c) k (val (heap w a)) v True (w\<lparr>heap := ?h'\<rparr>)"
  have res: "Add k v c w = Inr (?c', ?w')"
    using l m a al by (simp add: Add_def Let_def MoveToFront_def)
  have keys: "\<And>b. key (?h' b) = key (heap w b)" by simp
  have "rep_inv ?c' ?w' \<longleftrightarrow>
      distinct (a # remove1 a l) \<and> (\<forall>b\<in>set (a # remove1 a l). b < next_addr ?w') \<and>
      (\<forall>k' b. m k' = Some b \<longleftrightarrow> b \<in> set (a # remove1 a l) \<and> key (heap ?w' b) = k')"
    by (rule rep_inv_Some [where l = "a # remove1 a l" and m = m]) (simp_all add: m)
  moreover have "distinct (a # remove1 a l)" using d by simp
  moreover have "\<forall>b\<in>set (a # remove1 a l). b < next_addr ?w'"
    using lt al d by auto
  moreover have "\<forall>k' b. m k' = Some b \<longleftrightarrow> b \<in> set (a # remove1 a l) \<and> key (heap ?w' b) = k'"
    using rep_inv_lookup [OF inv l m] al d by auto
  ultimately have inv': "rep_inv ?c' ?w'" by blast
  have "a \<notin> set (remove1 a l)" using d by simp
  then have e0: "map ?h' (remove1 a l) = map (heap w) (remove1 a l)"
    by (intro map_cong) auto
  have "(heap w a)\<lparr>val := v\<rparr> = \<lparr>key = k, val = v\<rparr>"
    using ka by (cases "heap w a") simp
  then have e2: "?h' a = \<lparr>key = k, val = v\<rparr>" by simp
  have e1: "entries ?c' ?w' = ?h' a # map ?h' (remove1 a l)"
    by (simp add: entries_def)
  have e3: "filter (\<lambda>e. key e \<noteq> k) (entries c w) = map (heap w) (remove1 a l)"
    using filter_other_keys [OF inv l al] ka l by (simp add: entries_def)
  have ent: "entries ?c' ?w' = \<lparr>key = k, val = v\<rparr> # filter (\<lambda>e. key e \<noteq> k) (entries c w)"
    by (simp only: e1 e2 e3 e0)
  show ?thesis
    using res inv' ent m by simp
qed

lemma Add_insert:
  assumes inv: "rep_inv c w" and l: "ll c = Some l" and m: "cache c = Some m" and a: "m k = None"
  shows "case sweep_policy (Policy c) (Handler c) (\<lparr>key = k, val = v\<rparr> # entries c w)
                (Added_effect (Handler c) k 0 v False (env w)) of
           (n, es', s', cs) \<Rightarrow>
             \<exists>c' w'. Add k v c w = Inr (c', w') \<and> rep_inv c' w' \<and>
               Policy c' = Policy c \<and> Handler c' = Handler c \<and>
               ll c' = Some (take (Suc (length l) - nat n) (next_addr w # l)) \<and>
               heap w' = (heap w)(next_addr w := \<lparr>key = k, val = v\<rparr>) \<and>
               entries c' w' = es' \<and> env w' = s' \<and>
               calls w' = calls w @ Added_log (Handler c) k 0 v False @ cs"
proof -
  from inv l m have d: "distinct l" and lt: "\<forall>b\<in>set l. b < next_addr w"
    by (simp_all add: rep_inv_Some)
  let ?a = "next_addr w"
  let ?c2 = "c\<lparr>ll := Some (?a # l), cache := Some (m(k \<mapsto> ?a))\<rparr>"
  let ?h2 = "(heap w)(?a := \<lparr>key = k, val = v\<rparr>)"
  let ?w2 = "notify_Added (Handler c) k 0 v False (w\<lparr>heap := ?h2, next_addr := Suc ?a\<rparr>)"
  have res: "Add k v c w = map_sum id snd (Evict ?c2 ?w2)"
    using l m a by (simp add: Add_def Let_def)
  have fresh: "?a \<notin> set l" using lt by auto
  have old: "\<And>b. b \<in> set l \<Longrightarrow> ?h2 b = heap w b" using fresh by auto
  have nk: "\<And>b. b \<in> set l \<Longrightarrow> key (heap w b) \<noteq> k"
  proof
    fix b assume "b \<in> set l" and "key (heap w b) = k"
    with rep_inv_lookup [OF inv l m, of k b] have "m k = Some b" by simp
    with a show False by simp
  qed
  have "rep_inv ?c2 ?w2 \<longleftrightarrow>
      distinct (?a # l) \<and> (\<forall>b\<in>set (?a # l). b < next_addr ?w2) \<and>
      (\<forall>k' b. (m(k \<mapsto> ?a)) k' = Some b \<longleftrightarrow> b \<in> set (?a # l) \<and> key (heap ?w2 b) = k')"
    by (rule rep_inv_Some [where l = "?a # l" and m = "m(k \<mapsto> ?a)"]) simp_all
  moreover have "distinct (?a # l)" using d fresh by simp
  moreover have "\<forall>b\<in>set (?a # l). b < next_addr ?w2" using lt by auto
  moreover have "\<forall>k' b. (m(k \<mapsto> ?a)) k' = Some b \<longleftrightarrow> b \<in> set (?a # l) \<and> key (heap ?w2 b) = k'"
    using rep_inv_lookup [OF inv l m] nk fresh by auto
  ultimately have inv2: "rep_inv ?c2 ?w2" by blast
  have "map ?h2 l = map (heap w) l" by (rule map_cong [OF refl]) (rule old)
  then have ent2: "entries ?c2 ?w2 = \<lparr>key = k, val = v\<rparr> # entries c w"
    using l by (simp add: entries_def)
  have ll2: "ll ?c2 = Some (?a # l)" by simp
  obtain n es' s' cs where sw:
    "sweep_policy (Policy c) (Handler c) (\<lparr>key = k, val = v\<rparr> # entries c w)
       (Added_effect (Handler c) k 0 v False (env w)) = (n, es', s', cs)"
    by (metis prod_cases4)
  from Evict_abs [OF inv2 ll2] sw ent2
  obtain c' w' where "Evict ?c2 ?w2 = Inr (n, c', w')" "rep_inv c' w'" "entries c' w' = es'"
    "ll c' = Some (take (length (?a # l) - nat n) (?a # l))"
    "Policy c' = Policy c" "Handler c' = Handler c" "heap w' = ?h2" "env w' = s'"
    "calls w' = calls ?w2 @ cs"
    by auto
  with res sw show ?thesis by simp
qed


lemma Add_nil:
  "cache c = None \<Longrightarrow> Add k v c w = Add k v (c\<lparr>ll := Some [], cache := Some Map.empty\<rparr>) w"
  by (simp add: Add_def Let_def)

lemma stored_Some_iff:
  assumes "rep_inv c w" and "ll c = Some l" and "cache c = Some m"
  shows "stored k (entries c w) = Some x \<longleftrightarrow> (\<exists>a. m k = Some a \<and> val (heap w a) = x)"
proof (cases "m k")
  case None
  with stored_absent [OF assms None] show ?thesis by simp
next
  case (Some a)
  with stored_present [OF assms Some] show ?thesis by auto
qed

lemma Add_abs:
  assumes inv: "rep_inv c w"
  shows "case stored k (entries c w) of
           Some old \<Rightarrow>
             \<exists>c' w'. Add k v c w = Inr (c', w') \<and> rep_inv c' w' \<and>
               Policy c' = Policy c \<and> Handler c' = Handler c \<and> cache c' = cache c \<and>
               entries c' w' = \<lparr>key = k, val = v\<rparr> # filter (\<lambda>e. key e \<noteq> k) (entries c w) \<and>
               env w' = Added_effect (Handler c) k old v True (env w) \<and>
               calls w' = calls w @ Added_log (Handler c) k old v True
         | None \<Rightarrow>
             (case sweep_policy (Policy c) (Handler c) (\<lparr>key = k, val = v\<rparr> # entries c w)
                     (Added_effect (Handler c) k 0 v False (env w)) of
                (n, es', s', cs) \<Rightarrow>
                  \<exists>c' w'. Add k v c w = Inr (c', w') \<and> rep_inv c' w' \<and>
                    Policy c' = Policy c \<and> Handler c' = Handler c \<and>
                    entries c' w' = es' \<and> env w' = s' \<and>
                    calls w' = calls w @ Added_log (Handler c) k 0 v False @ cs)"
proof (cases "ll c")
  case None
  with inv have cn: "cache c = None" by (simp add: rep_inv_None)
  let ?c1 = "c\<lparr>ll := Some [], cache := Some Map.empty\<rparr>"
  have inv1: "rep_inv ?c1 w" by (simp add: rep_inv_def)
  have e: "entries c w = []" "entries ?c1 w = []" using None by (simp_all add: entries_def)
  from Add_insert [OF inv1, of "[]" Map.empty k v] Add_nil [OF cn, of k v w] e
  show ?thesis by (auto simp: stored_def split: prod.splits)
next
  case (Some l)
  with inv obtain m where m: "cache c = Some m" by (auto dest: rep_inv_cache)
  show ?thesis
  proof (cases "m k")
    case None
    from Add_insert [OF inv Some m None, of v] stored_absent [OF inv Some m None]
    show ?thesis by (auto split: prod.splits)
  next
    case a: (Some a)
    from Add_update [OF inv Some m a, of v] stored_present [OF inv Some m a] m
    show ?thesis by auto
  qed
qed

lemma Get_abs:
  assumes inv: "rep_inv c w"
  shows "case stored k (entries c w) of
           Some x \<Rightarrow>
             \<exists>c'. Get k c w = ((x, True), c', w) \<and> rep_inv c' w \<and>
               Policy c' = Policy c \<and> Handler c' = Handler c \<and> cache c' = cache c \<and>
               entries c' w = \<lparr>key = k, val = x\<rparr> # filter (\<lambda>e. key e \<noteq> k) (entries c w)
         | None \<Rightarrow> Get k c w = ((0, False), c, w)"
proof (cases "ll c")
  case None
  with inv have "cache c = None" by (simp add: rep_inv_None)
  with None show ?thesis by (simp add: Get_def entries_def stored_def)
next
  case (Some l)
  with inv obtain m where m: "cache c = Some m" by (auto dest: rep_inv_cache)
  show ?thesis
  proof (cases "m k")
    case None
    with stored_absent [OF inv Some m None] m show ?thesis by (simp add: Get_def)
  next
    case a: (Some a)
    from rep_inv_lookup [OF inv Some m, of k a] a have al: "a \<in> set l" and ka: "key (heap w a) = k"
      by simp_all
    from inv Some m have d: "distinct l" and lt: "\<forall>b\<in>set l. b < next_addr w"
      by (simp_all add: rep_inv_Some)
    let ?c' = "c\<lparr>ll := Some (a # remove1 a l)\<rparr>"
    have res: "Get k c w = ((val (heap w a), True), ?c', w)"
      using Some m a al by (simp add: Get_def MoveToFront_def)
    have "rep_inv ?c' w \<longleftrightarrow>
        distinct (a # remove1 a l) \<and> (\<forall>b\<in>set (a # remove1 a l). b < next_addr w) \<and>
        (\<forall>k' b. m k' = Some b \<longleftrightarrow> b \<in> set (a # remove1 a l) \<and> key (heap w b) = k')"
      by (rule rep_inv_Some [where l = "a # remove1 a l" and m = m]) (simp_all add: m)
    moreover have "distinct (a # remove1 a l)" using d by simp
    moreover have "\<forall>b\<in>set (a # remove1 a l). b < next_addr w" using lt al d by auto
    moreover have "\<forall>k' b. m k' = Some b \<longleftrightarrow> b \<in> set (a # remove1 a l) \<and> key (heap w b) = k'"
      using rep_inv_lookup [OF inv Some m] al d by auto
    ultimately have inv': "rep_inv ?c' w" by blast
    have "heap w a = \<lparr>key = k, val = val (heap w a)\<rparr>"
      using ka by (cases "heap w a") simp
    then have ent: "entries ?c' w = \<lparr>key = k, val = val (heap w a)\<rparr> # filter (\<lambda>e. key e \<noteq> k) (entries c w)"
      using filter_other_keys [OF inv Some al] ka Some by (simp add: entries_def)
    from res inv' ent stored_present [OF inv Some m a] m show ?thesis by simp
  qed
qed

lemma Remove_abs:
  assumes inv: "rep_inv c w"
  shows "case stored k (entries c w) of
           Some x \<Rightarrow>
             \<exists>c' w' m. Remove k c w = (True, c', w') \<and> rep_inv c' w' \<and>
               Policy c' = Policy c \<and> Handler c' = Handler c \<and>
               cache c = Some m \<and> cache c' = Some (m(k := None)) \<and>
               entries c' w' = filter (\<lambda>e. key e \<noteq> k) (entries c w) \<and>
               heap w' = heap w \<and>
               env w' = Removed_effect (Handler c) k x (env w) \<and>
               calls w' = calls w @ Removed_log (Handler c) k x
         | None \<Rightarrow> Remove k c w = (False, c, w)"
proof (cases "ll c")
  case None
  with inv have "cache c = None" by (simp add: rep_inv_None)
  with None show ?thesis by (simp add: Remove_def entries_def stored_def)
next
  case (Some l)
  with inv obtain m where m: "cache c = Some m" by (auto dest: rep_inv_cache)
  show ?thesis
  proof (cases "m k")
    case None
    with stored_absent [OF inv Some m None] m show ?thesis by (simp add: Remove_def)
  next
    case a: (Some a)
    from rep_inv_lookup [OF inv Some m, of k a] a have al: "a \<in> set l" and ka: "key (heap w a) = k"
      by simp_all
    let ?c' = "fst (removeElement a k c w)" and ?w' = "snd (removeElement a k c w)"
    have res: "Remove k c w = (True, ?c', ?w')"
      using m a by (simp add: Remove_def)
    have inv': "rep_inv ?c' ?w'"
      using rep_inv_removeElement [OF inv Some al] ka by simp
    have ent: "entries ?c' ?w' = filter (\<lambda>e. key e \<noteq> k) (entries c w)"
      using filter_other_keys [OF inv Some al] ka Some
      by (simp add: entries_def ll_removeElement heap_removeElement)
    have "Remove k c w = (True, ?c', ?w') \<and> rep_inv ?c' ?w' \<and>
        Policy ?c' = Policy c \<and> Handler ?c' = Handler c \<and>
        cache c = Some m \<and> cache ?c' = Some (m(k := None)) \<and>
        entries ?c' ?w' = filter (\<lambda>e. key e \<noteq> k) (entries c w) \<and>
        heap ?w' = heap w \<and>
        env ?w' = Removed_effect (Handler c) k (val (heap w a)) (env w) \<and>
        calls ?w' = calls w @ Removed_log (Handler c) k (val (heap w a))"
      using res inv' ent m
      by (simp add: cache_removeElement Policy_removeElement Handler_removeElement
          heap_removeElement env_removeElement calls_removeElement)
    then have "\<exists>c' w' m. Remove k c w = (True, c', w') \<and> rep_inv c' w' \<and>
        Policy c' = Policy c \<and> Handler c' = Handler c \<and>
        cache c = Some m \<and> cache c' = Some (m(k := None)) \<and>
        entries c' w' = filter (\<lambda>e. key e \<noteq> k) (entries c w) \<and>
        heap w' = heap w \<and>
        env w' = Removed_effect (Handler c) k (val (heap w a)) (env w) \<and>
        calls w' = calls w @ Removed_log (Handler c) k (val (heap w a))"
      by blast
    with stored_present [OF inv Some m a] show ?thesis by simp
  qed
qed

subsection \<open>Clear, and the invariant along a program\<close>





lemma Removed_log_None [simp]: "Removed_log None k v = []"
  and Removed_effect_None [simp]: "Removed_effect None k v s = s"
  and Removed_log_Some [simp]: "Removed_log (Some hdl) k v = [RemovedCall k v]"
  and Removed_effect_Some [simp]: "Removed_effect (Some hdl) k v s = Removed hdl k v s"
  by (simp_all add: Removed_log_def Removed_effect_def)

lemma Added_log_None [simp]: "Added_log None k old new u = []"
  and Added_effect_None [simp]: "Added_effect None k old new u s = s"
  and Added_log_Some [simp]: "Added_log (Some hdl) k old new u = [AddedCall k old new u]"
  and Added_effect_Some [simp]: "Added_effect (Some hdl) k old new u s = Added hdl k old new u s"
  by (simp_all add: Added_log_def Added_effect_def)




lemma Add_inv:
  assumes "rep_inv c w"
  shows "\<exists>c' w'. Add k v c w = Inr (c', w') \<and> rep_inv c' w' \<and>
           Policy c' = Policy c \<and> Handler c' = Handler c"
  using Add_abs [OF assms, of k v]
  by (cases "stored k (entries c w)") (auto split: prod.splits)






lemma rep_inv_cache3: "rep_inv cache3 world3"
  by (auto simp: rep_inv_def cache3_def world3_def split: if_splits)

lemma entries_cache3:
  "entries cache3 world3 = [\<lparr>key = 3, val = 30\<rparr>, \<lparr>key = 2, val = 20\<rparr>, \<lparr>key = 1, val = 10\<rparr>]"
  by (simp add: entries_def cache3_def world3_def)

lemma Len_entries: "rep_inv c w \<Longrightarrow> Len c = Inr (int (length (entries c w)))"
  by (auto simp: Len_def entries_def rep_inv_def split: option.splits)

lemma sweep_policy_removes_back:
  "case sweep_policy p h es s of
     (n, es', s', cs) \<Rightarrow> 0 \<le> n \<and> es' = take (length es - nat n) es \<and> nat n \<le> length es"
  using sweep_removes_back [where h = h and es = es and s = s]
  by (cases p) (simp_all add: sweep_policy_def)


lemma stored_Cons: "stored k (e # es) = (if key e = k then Some (val e) else stored k es)"
  by (simp add: stored_def)

lemma stored_None_iff: "stored k es = None \<longleftrightarrow> k \<notin> key ` set es"
  by (auto simp: stored_def find_None_iff)

lemma stored_take: "stored k (take n es) = Some x \<Longrightarrow> stored k es = Some x"
proof (induction es arbitrary: n)
  case Nil
  then show ?case by simp
next
  case (Cons e es)
  then show ?case by (cases n) (auto simp: stored_Cons stored_def split: if_splits)
qed

lemma stored_filter_other: "stored k (filter (\<lambda>e. key e \<noteq> k) es) = None"
  by (auto simp: stored_None_iff)

lemma length_filter_other_keys:
  "distinct (map key es) \<Longrightarrow> k \<in> key ` set es \<Longrightarrow>
   Suc (length (filter (\<lambda>e. key e \<noteq> k) es)) = length es"
proof (induction es)
  case Nil
  then show ?case by simp
next
  case (Cons e es)
  show ?case
  proof (cases "key e = k")
    case True
    with Cons.prems have "\<forall>x\<in>set es. key x \<noteq> k" by (auto simp: image_iff)
    then have "filter (\<lambda>e. key e \<noteq> k) es = es" by (simp add: filter_id_conv)
    with True show ?thesis by simp
  next
    case False
    with Cons show ?thesis by auto
  qed
qed

lemma rep_inv_distinct_entries: "rep_inv c w \<Longrightarrow> distinct (map key (entries c w))"
proof (cases "ll c")
  case None
  then show ?thesis by (simp add: entries_def)
next
  case (Some l)
  assume "rep_inv c w"
  from rep_inv_distinct_keys [OF this Some] Some show ?thesis
    by (simp add: entries_def comp_def)
qed

lemma sweep_calls_not_Added:
  "case sweep_spec p h es s of (n, es', s', cs) \<Rightarrow> \<forall>x\<in>set cs. \<not> Added_call x"
proof (induction es arbitrary: s rule: rev_induct)
  case Nil
  show ?case by (simp add: sweep_Nil)
next
  case (snoc e es)
  let ?s = "Removed_effect h (key e) (val e) (snd (p (key e) (val e) (1 + int (length es)) s))"
  from snoc.IH [of ?s] show ?case
    by (cases h) (auto simp: sweep_snoc split: prod.splits)
qed

lemma sweep_policy_calls_not_Added:
  "case sweep_policy p h es s of (n, es', s', cs) \<Rightarrow> \<forall>x\<in>set cs. \<not> Added_call x"
  using sweep_calls_not_Added [where h = h and es = es and s = s]
  by (cases p) (simp_all add: sweep_policy_def)

lemma sweep_evict_all_single:
  "sweep_policy (Some evict_all) h [e] s =
     (1, [], Removed_effect h (key e) (val e) s, EvictCall (key e) (val e) 1 # Removed_log h (key e) (val e))"
  using sweep_snoc [of evict_all h "[]" e s]
  by (simp add: sweep_policy_def sweep_Nil evict_all_def)

lemma stored_after_Add:
  assumes inv: "rep_inv c w" and res: "Add k v c w = Inr (c', w')"
    and st: "stored k (entries c' w') \<noteq> None"
  shows "stored k (entries c' w') = Some v"
proof (cases "stored k (entries c w)")
  case (Some old)
  with Add_abs [OF inv, of k v] res show ?thesis by (auto simp: stored_Cons)
next
  case None
  let ?es = "\<lparr>key = k, val = v\<rparr> # entries c w"
  let ?s = "Added_effect (Handler c) k 0 v False (env w)"
  obtain n es' s' cs where sw: "sweep_policy (Policy c) (Handler c) ?es ?s = (n, es', s', cs)"
    by (metis prod_cases4)
  with Add_abs [OF inv, of k v] None res have ent: "entries c' w' = es'" by auto
  from sweep_policy_removes_back [where p = "Policy c" and h = "Handler c" and es = ?es and s = ?s] sw
  have "es' = take (length ?es - nat n) ?es" by simp
  with st ent obtain x where "stored k (take (length ?es - nat n) ?es) = Some x" by auto
  then have "stored k (take (length ?es - nat n) ?es) = Some v"
    using stored_take [of k "length ?es - nat n" ?es x] by (simp add: stored_Cons)
  with ent \<open>es' = take (length ?es - nat n) ?es\<close> show ?thesis by simp
qed

lemma stored_Some_mem: "stored k es = Some x \<Longrightarrow> \<lparr>key = k, val = x\<rparr> \<in> set es"
proof (induction es)
  case Nil
  then show ?case by (simp add: stored_def)
next
  case (Cons e es)
  then show ?case by (cases e) (auto simp: stored_Cons split: if_splits)
qed

lemma keys_of_entries: "set (keys_of c w) = key ` set (entries c w)"
  by (simp add: keys_of_def)






lemma remdups_snoc: "remdups (ts @ [k]) = removeAll k (remdups ts) @ [k]"
  by (induction ts) auto

lemma most_recent_first_snoc:
  "most_recent_first (ts @ [k]) = k # removeAll k (most_recent_first ts)"
  by (simp add: most_recent_first_def remdups_snoc removeAll_filter_not_eq rev_filter)

lemma keys_of_touched:
  "map key (\<lparr>key = k, val = v\<rparr> # filter (\<lambda>e. key e \<noteq> k) es) = k # removeAll k (map key es)"
  by (simp add: removeAll_filter_not_eq filter_map comp_def) (metis)

lemma prefix_touched:
  assumes "prefix ks M"
  shows "prefix (k # removeAll k ks) (k # removeAll k M)"
  using filter_mono_prefix [OF assms, of "\<lambda>y. k \<noteq> y"]
  by (simp add: removeAll_filter_not_eq)

lemma exec_touch:
  assumes inv: "rep_inv c w" and ag: "Add_or_Get x"
    and pre: "prefix (keys_of c w) (most_recent_first ts)"
  shows "\<exists>r c' w'. exec x c w = Inr (r, c', w') \<and> rep_inv c' w' \<and>
           Policy c' = Policy c \<and> Handler c' = Handler c \<and>
           prefix (keys_of c' w') (most_recent_first (ts @ touch x c w))"
proof (cases x)
  case (OpAdd k v)
  show ?thesis
  proof (cases "stored k (entries c w)")
    case (Some old)
    with Add_abs [OF inv, of k v] obtain c' w' where
      r: "Add k v c w = Inr (c', w')" "rep_inv c' w'" "Policy c' = Policy c" "Handler c' = Handler c"
        "entries c' w' = \<lparr>key = k, val = v\<rparr> # filter (\<lambda>e. key e \<noteq> k) (entries c w)"
      by auto
    have "keys_of c' w' = k # removeAll k (keys_of c w)"
      by (simp only: keys_of_def r(5) keys_of_touched)
    with prefix_touched [OF pre, of k] r OpAdd show ?thesis
      by (simp add: most_recent_first_snoc)
  next
    case None
    let ?es = "\<lparr>key = k, val = v\<rparr> # entries c w"
    let ?s = "Added_effect (Handler c) k 0 v False (env w)"
    obtain n es' s' cs where sw: "sweep_policy (Policy c) (Handler c) ?es ?s = (n, es', s', cs)"
      by (metis prod_cases4)
    with Add_abs [OF inv, of k v] None obtain c' w' where
      r: "Add k v c w = Inr (c', w')" "rep_inv c' w'" "Policy c' = Policy c" "Handler c' = Handler c"
        "entries c' w' = es'"
      by auto
    from sweep_policy_removes_back [where p = "Policy c" and h = "Handler c" and es = ?es and s = ?s] sw
    have "es' = take (length ?es - nat n) ?es" by simp
    moreover have "map key (take (length ?es - nat n) ?es) = take (length ?es - nat n) (map key ?es)"
      by (rule take_map [symmetric])
    ultimately have "keys_of c' w' = take (length ?es - nat n) (k # keys_of c w)"
      by (simp only: keys_of_def r(5)) simp
    then have p1: "prefix (keys_of c' w') (k # keys_of c w)"
      by (simp add: take_is_prefix)
    from None have "k \<notin> set (keys_of c w)"
      by (simp add: stored_None_iff keys_of_def)
    then have "removeAll k (keys_of c w) = keys_of c w" by simp
    with prefix_touched [OF pre, of k] have "prefix (k # keys_of c w) (most_recent_first (ts @ [k]))"
      by (simp add: most_recent_first_snoc)
    with p1 have "prefix (keys_of c' w') (most_recent_first (ts @ [k]))"
      by (rule prefix_order.trans)
    with r OpAdd show ?thesis by simp
  qed
next
  case (OpGet k)
  show ?thesis
  proof (cases "stored k (entries c w)")
    case (Some v)
    with Get_abs [OF inv, of k] obtain c' where
      r: "Get k c w = ((v, True), c', w)" "rep_inv c' w" "Policy c' = Policy c" "Handler c' = Handler c"
        "entries c' w = \<lparr>key = k, val = v\<rparr> # filter (\<lambda>e. key e \<noteq> k) (entries c w)"
      by auto
    have "keys_of c' w = k # removeAll k (keys_of c w)"
      by (simp only: keys_of_def r(5) keys_of_touched)
    with prefix_touched [OF pre, of k] r OpGet show ?thesis
      by (simp add: most_recent_first_snoc)
  next
    case None
    with Get_abs [OF inv, of k] have "Get k c w = ((0, False), c, w)" by simp
    with OpGet inv pre show ?thesis by simp
  qed
qed (use ag in simp_all)

lemma run_touches:
  assumes "rep_inv c w" and "list_all Add_or_Get xs"
    and "prefix (keys_of c w) (most_recent_first ts)"
  shows "\<exists>rs c' w'. run xs c w = Inr (rs, c', w') \<and> rep_inv c' w' \<and>
           prefix (keys_of c' w') (most_recent_first (ts @ touches xs c w))"
  using assms
proof (induction xs arbitrary: c w ts)
  case Nil
  then show ?case by simp
next
  case (Cons x xs)
  from Cons.prems(2) have x: "Add_or_Get x" and xs: "list_all Add_or_Get xs" by simp_all
  from exec_touch [OF Cons.prems(1) x Cons.prems(3)] obtain r c1 w1 where
    e: "exec x c w = Inr (r, c1, w1)" and inv1: "rep_inv c1 w1"
    and p1: "prefix (keys_of c1 w1) (most_recent_first (ts @ touch x c w))"
    by blast
  from Cons.IH [OF inv1 xs p1] obtain rs c' w' where
    "run xs c1 w1 = Inr (rs, c', w')" "rep_inv c' w'"
    "prefix (keys_of c' w') (most_recent_first ((ts @ touch x c w) @ touches xs c1 w1))"
    by blast
  with e show ?case by simp
qed

lemma touch_on_read:
  assumes "ka \<noteq> kb" and "kb \<noteq> kc" and "ka \<noteq> kc"
  shows "\<exists>rs c w'. run [OpAdd ka va, OpAdd kb vb, OpGet ka, OpAdd kc vc]
            (NewWithHandler (Some (MaxCount 2)) h) w = Inr (rs, c, w') \<and>
         rs = [RetUnit, RetUnit, RetGet va True, RetUnit] \<and>
         entries c w' = [\<lparr>key = kc, val = vc\<rparr>, \<lparr>key = ka, val = va\<rparr>] \<and>
         calls w' = calls w @ Added_log h ka 0 va False @ [EvictCall ka va 1] @
           Added_log h kb 0 vb False @ [EvictCall ka va 2] @
           Added_log h kc 0 vc False @ [EvictCall kb vb 3] @ Removed_log h kb vb @ [EvictCall ka va 2]"
  using assms
  by (cases h)
     (simp_all add: NewWithHandler_def MaxCount_def Add_def Let_def
      Evict_def evict_loop.simps Back_def ask_Evict_def notify_Added_def notify_Removed_def
      removeElement_def MoveToFront_def Remove_list_def Get_def entries_def)

lemma touches_example:
  "touches [OpAdd 1 10, OpAdd 2 20, OpGet 1, OpAdd 3 30, OpGet 2]
     (NewWithHandler (Some (MaxCount 2)) None) world0 = [1, 2, 1, 3]"
  by (simp add: NewWithHandler_def world0_def MaxCount_def Add_def Let_def
      Evict_def evict_loop.simps Back_def ask_Evict_def notify_Added_def notify_Removed_def
      removeElement_def MoveToFront_def Remove_list_def Get_def)

section \<open>The claims\<close>

subsection \<open>C3: Evict on a cache whose list is nil\<close>

text \<open>
  Claim C3 says that \<^verbatim>\<open>Evict\<close> may be called at any time without error, also on a
  zero-initialised cache and on a cache that has been cleared, whether or not a policy
  is configured. The code does not do that: with a policy configured, \<^verbatim>\<open>Evict\<close> calls
  \<^verbatim>\<open>c.ll.Back()\<close> on the nil list of a zero-initialised cache, and of a constructed
  cache after \<^verbatim>\<open>Clear\<close>, and panics. \<^verbatim>\<open>Add\<close> and \<^verbatim>\<open>Len\<close> test for nil; \<^verbatim>\<open>Evict\<close> does not.
\<close>

theorem Evict_nil_list_panics:
  "Evict (zero_Cache (Some p) h) w = Inl NilPointerDereference \<and>
   Evict (fst (Clear ord (NewWithHandler (Some p) h) w))
         (snd (Clear ord (NewWithHandler (Some p) h) w)) = Inl NilPointerDereference"
  by (simp add: Evict_def zero_Cache_def Clear_def NewWithHandler_def Let_def evict_loop.simps)

subsection \<open>C2: the eviction sweep\<close>



subsection \<open>C1: when Add runs the eviction sweep\<close>

text \<open>
  Claim C1, as amended. The claim says that \<^verbatim>\<open>Add\<close> runs \<^verbatim>\<open>Evict\<close> once after either
  branch. The code runs it after the insert branch only: the update branch returns after
  the \<^verbatim>\<open>Added\<close> notification. On every well-formed cache, when the key is absent, \<^verbatim>\<open>Add\<close>
  puts the entry at the front, notifies the handler with the zero value as old value and
  then runs exactly one sweep, on the entries and the callers' state the notification
  left; when the key is present with value \<open>old\<close>, \<^verbatim>\<open>Add\<close> moves the entry to the front
  with the new value, notifies the handler once with \<open>old\<close>, and does nothing else: the
  policy is not asked and no entry is removed.
\<close>

theorem Add_sweeps_after_insert_only:
  assumes "rep_inv c w"
  shows "case stored k (entries c w) of
           None \<Rightarrow>
             (case sweep_policy (Policy c) (Handler c) (\<lparr>key = k, val = v\<rparr> # entries c w)
                     (Added_effect (Handler c) k 0 v False (env w)) of
                (n, es', s', cs) \<Rightarrow>
                  \<exists>c' w'. Add k v c w = Inr (c', w') \<and> entries c' w' = es' \<and> env w' = s' \<and>
                    calls w' = calls w @ Added_log (Handler c) k 0 v False @ cs)
         | Some old \<Rightarrow>
             \<exists>c' w'. Add k v c w = Inr (c', w') \<and>
               entries c' w' = \<lparr>key = k, val = v\<rparr> # filter (\<lambda>e. key e \<noteq> k) (entries c w) \<and>
               env w' = Added_effect (Handler c) k old v True (env w) \<and>
               calls w' = calls w @ Added_log (Handler c) k old v True"
  using Add_abs [OF assms, of k v]
  by (cases "stored k (entries c w)") (auto split: prod.splits)

theorem Add_sweeps_after_insert_only_witness:
  "rep_inv cache3 world3 \<and>
   (\<exists>c' w'. Add 2 99 cache3 world3 = Inr (c', w') \<and>
      entries c' w' = [\<lparr>key = 2, val = 99\<rparr>, \<lparr>key = 3, val = 30\<rparr>, \<lparr>key = 1, val = 10\<rparr>] \<and>
      env w' = 4 \<and> calls w' = [AddedCall 2 20 99 True])"
proof -
  have H: "Handler cache3 = Some counting" "env world3 = 3" "calls world3 = []"
    by (simp_all add: cache3_def world3_def)
  have "stored 2 (entries cache3 world3) = Some 20"
    by (simp add: entries_cache3 stored_def)
  with Add_sweeps_after_insert_only [OF rep_inv_cache3, of 2 99] rep_inv_cache3
  show ?thesis
    by (simp add: H entries_cache3 counting_def)
qed

text \<open>
  The claim itself fails on the update branch. Under a policy that evicts an entry whose
  value exceeds 100, \<^verbatim>\<open>Add(1, 10); Add(1, 200)\<close> leaves the entry (1, 200) in the cache
  and the second call does not ask the policy; a call of \<^verbatim>\<open>Evict\<close> made right after removes
  that entry, so the policy approved its eviction and \<^verbatim>\<open>Add\<close> did not carry it out.
\<close>

theorem Add_update_without_sweep:
  "observe (run [OpAdd 1 10, OpAdd 1 200] (New (Some evict_large)) world0) =
     Inr ([RetUnit, RetUnit], [(1, 200)], [EvictCall 1 10 1]) \<and>
   observe (run [OpAdd 1 10, OpAdd 1 200, OpEvict] (New (Some evict_large)) world0) =
     Inr ([RetUnit, RetUnit, RetInt 1], [], [EvictCall 1 10 1, EvictCall 1 200 1])"
  by (simp add: observe_def New_def NewWithHandler_def world0_def evict_large_def Add_def Let_def
      Evict_def evict_loop.simps Back_def ask_Evict_def notify_Added_def notify_Removed_def
      removeElement_def MoveToFront_def Remove_list_def entries_def)

subsection \<open>C10: the notification of an insertion precedes the sweep\<close>

text \<open>
  Claim C10. When \<^verbatim>\<open>Add\<close> inserts a new key, the \<^verbatim>\<open>Added\<close> notification (with the zero
  value as old value and update false) is made before every call of the sweep, none of
  which is an \<^verbatim>\<open>Added\<close> notification; and the sweep may evict the entry just inserted:
  on an empty cache with a handler and the policy that always says true, the calls of
  one \<^verbatim>\<open>Add\<close> are \<^verbatim>\<open>Added\<close>, the policy's \<^verbatim>\<open>Evict\<close> with count 1, \<^verbatim>\<open>Removed\<close>, in this
  order, and the cache is empty afterwards.
\<close>

theorem Add_notifies_before_sweep:
  assumes "rep_inv c w" and "stored k (entries c w) = None"
  shows "\<exists>c' w' cs. Add k v c w = Inr (c', w') \<and>
           calls w' = calls w @ Added_log (Handler c) k 0 v False @ cs \<and>
           (\<forall>x\<in>set cs. \<not> Added_call x) \<and>
           (\<forall>hdl. entries c w = [] \<and> Policy c = Some evict_all \<and> Handler c = Some hdl \<longrightarrow>
              calls w' = calls w @ [AddedCall k 0 v False, EvictCall k v 1, RemovedCall k v] \<and>
              env w' = Removed hdl k v (Added hdl k 0 v False (env w)) \<and>
              entries c' w' = [] \<and> Len c' = Inr 0)"
proof -
  let ?sw = "sweep_policy (Policy c) (Handler c) (\<lparr>key = k, val = v\<rparr> # entries c w)
      (Added_effect (Handler c) k 0 v False (env w))"
  obtain n es' s' cs where sw: "?sw = (n, es', s', cs)" by (metis prod_cases4)
  with Add_abs [OF assms(1), of k v] assms(2)
  obtain c' w' where res: "Add k v c w = Inr (c', w')" and inv': "rep_inv c' w'"
    and ent: "entries c' w' = es'" and env: "env w' = s'"
    and cl: "calls w' = calls w @ Added_log (Handler c) k 0 v False @ cs"
    by auto
  from sweep_policy_calls_not_Added [where p = "Policy c" and h = "Handler c"
      and es = "\<lparr>key = k, val = v\<rparr> # entries c w"
      and s = "Added_effect (Handler c) k 0 v False (env w)"] sw
  have na: "\<forall>x\<in>set cs. \<not> Added_call x" by simp
  have "calls w' = calls w @ [AddedCall k 0 v False, EvictCall k v 1, RemovedCall k v] \<and>
        env w' = Removed hdl k v (Added hdl k 0 v False (env w)) \<and>
        entries c' w' = [] \<and> Len c' = Inr 0"
    if "entries c w = [] \<and> Policy c = Some evict_all \<and> Handler c = Some hdl" for hdl
    using that sw ent env cl Len_entries [OF inv']
    by (simp add: sweep_evict_all_single)
  with res cl na show ?thesis by blast
qed

theorem Add_notifies_before_sweep_witness:
  "rep_inv (NewWithHandler (Some evict_all) (Some counting)) world0 \<and>
   stored 1 (entries (NewWithHandler (Some evict_all) (Some counting)) world0) = None \<and>
   (\<exists>c' w'. Add 1 10 (NewWithHandler (Some evict_all) (Some counting)) world0 = Inr (c', w') \<and>
      calls w' = [AddedCall 1 0 10 False, EvictCall 1 10 1, RemovedCall 1 10] \<and>
      env w' = 2 \<and> entries c' w' = [] \<and> Len c' = Inr 0)"
proof -
  let ?c = "NewWithHandler (Some evict_all) (Some counting) :: (int, int, nat) Cache"
  have e: "entries ?c world0 = []" by (simp add: entries_def NewWithHandler_def)
  then have s: "stored 1 (entries ?c world0) = None" by (simp add: stored_def)
  have f: "Policy ?c = Some evict_all" "Handler ?c = Some counting" "calls world0 = []" "env world0 = 0"
    by (simp_all add: NewWithHandler_def world0_def)
  from Add_notifies_before_sweep [OF rep_inv_NewWithHandler s, of 10] e f
  show ?thesis
    by (auto simp: rep_inv_NewWithHandler stored_def counting_def)
qed

subsection \<open>C7: adding a key twice\<close>

text \<open>
  Claim C7, as amended. The claim holds when the key is still cached after the first
  \<^verbatim>\<open>Add\<close>. On a well-formed cache with a handler, \<^verbatim>\<open>Add(k, v1)\<close> returns, and if \<open>k\<close> is
  cached afterwards (the sweep of the first call did not evict it), then \<^verbatim>\<open>Add(k, v2)\<close>
  makes exactly one call, \<^verbatim>\<open>Added(k, v1, v2, true)\<close>, leaves \<^verbatim>\<open>Len\<close> as it was, and a
  following \<^verbatim>\<open>Get(k)\<close> returns \<open>v2\<close> and true.
\<close>

theorem Add_twice_updates:
  assumes "rep_inv c w" and "Handler c = Some hdl"
  shows "\<exists>c1 w1. Add k v1 c w = Inr (c1, w1) \<and>
           (stored k (entries c1 w1) \<noteq> None \<longrightarrow>
              (\<exists>c2 w2. Add k v2 c1 w1 = Inr (c2, w2) \<and>
                 calls w2 = calls w1 @ [AddedCall k v1 v2 True] \<and>
                 env w2 = Added hdl k v1 v2 True (env w1) \<and>
                 Len c2 = Len c1 \<and>
                 fst (Get k c2 w2) = (v2, True)))"
proof -
  from Add_inv [OF assms(1), of k v1] assms(2)
  obtain c1 w1 where a1: "Add k v1 c w = Inr (c1, w1)"
    and inv1: "rep_inv c1 w1" and h1: "Handler c1 = Some hdl"
    by auto
  have "\<exists>c2 w2. Add k v2 c1 w1 = Inr (c2, w2) \<and>
          calls w2 = calls w1 @ [AddedCall k v1 v2 True] \<and>
          env w2 = Added hdl k v1 v2 True (env w1) \<and>
          Len c2 = Len c1 \<and> fst (Get k c2 w2) = (v2, True)"
    if present: "stored k (entries c1 w1) \<noteq> None"
  proof -
    have st: "stored k (entries c1 w1) = Some v1"
      by (rule stored_after_Add [OF assms(1) a1 present])
    with Add_abs [OF inv1, of k v2] h1
    obtain c2 w2 where res: "Add k v2 c1 w1 = Inr (c2, w2)" and inv2: "rep_inv c2 w2"
      and ent: "entries c2 w2 = \<lparr>key = k, val = v2\<rparr> # filter (\<lambda>e. key e \<noteq> k) (entries c1 w1)"
      and env: "env w2 = Added hdl k v1 v2 True (env w1)"
      and cl: "calls w2 = calls w1 @ [AddedCall k v1 v2 True]"
      by auto
    from st have "k \<in> key ` set (entries c1 w1)"
      using stored_None_iff [of k "entries c1 w1"] by auto
    with length_filter_other_keys [OF rep_inv_distinct_entries [OF inv1]]
    have "length (entries c2 w2) = length (entries c1 w1)" by (simp add: ent)
    then have len: "Len c2 = Len c1"
      by (simp add: Len_entries [OF inv1] Len_entries [OF inv2])
    have "stored k (entries c2 w2) = Some v2" by (simp add: ent stored_Cons)
    with Get_abs [OF inv2, of k] have "fst (Get k c2 w2) = (v2, True)" by auto
    with res cl env len show ?thesis by blast
  qed
  with a1 show ?thesis by blast
qed

theorem Add_twice_updates_witness:
  "rep_inv cache3 world3 \<and> Handler cache3 = Some counting \<and>
   (\<exists>c1 w1. Add 2 21 cache3 world3 = Inr (c1, w1) \<and> stored 2 (entries c1 w1) \<noteq> None \<and>
      (\<exists>c2 w2. Add 2 22 c1 w1 = Inr (c2, w2) \<and>
         calls w2 = calls w1 @ [AddedCall 2 21 22 True] \<and>
         Len c2 = Len c1 \<and> fst (Get 2 c2 w2) = (22, True)))"
proof -
  have H: "Handler cache3 = Some counting" by (simp add: cache3_def)
  have s0: "stored 2 (entries cache3 world3) = Some 20"
    by (simp add: entries_cache3 stored_def)
  from Add_twice_updates [OF rep_inv_cache3 H, of 2 21 22]
  obtain c1 w1 where a1: "Add 2 21 cache3 world3 = Inr (c1, w1)"
    and imp: "stored 2 (entries c1 w1) \<noteq> None \<longrightarrow>
      (\<exists>c2 w2. Add 2 22 c1 w1 = Inr (c2, w2) \<and>
         calls w2 = calls w1 @ [AddedCall 2 21 22 True] \<and>
         env w2 = Added counting 2 21 22 True (env w1) \<and>
         Len c2 = Len c1 \<and> fst (Get 2 c2 w2) = (22, True))"
    by blast
  from Add_abs [OF rep_inv_cache3, of 2 21] s0 a1
  have "entries c1 w1 = \<lparr>key = 2, val = 21\<rparr> # filter (\<lambda>e. key e \<noteq> 2) (entries cache3 world3)"
    by auto
  then have s1: "stored 2 (entries c1 w1) \<noteq> None" by (simp add: stored_Cons)
  with imp a1 H rep_inv_cache3 show ?thesis by blast
qed

text \<open>
  Without that condition the claim fails: the sweep of the first \<^verbatim>\<open>Add\<close> may evict the
  key it has just inserted (C10). With a maximum count of 0, \<^verbatim>\<open>Add(1, 10); Add(1, 20)\<close>
  inserts twice, each time with update false and old value 0, and \<^verbatim>\<open>Get(1)\<close> misses.
\<close>

theorem second_Add_after_eviction:
  "observe (run [OpAdd 1 10, OpAdd 1 20, OpGet 1, OpLen]
      (NewWithHandler (Some (MaxCount 0)) (Some counting)) world0) =
     Inr ([RetUnit, RetUnit, RetGet 0 False, RetInt 0], [],
          [AddedCall 1 0 10 False, EvictCall 1 10 1, RemovedCall 1 10,
           AddedCall 1 0 20 False, EvictCall 1 20 1, RemovedCall 1 20])"
  by (simp add: observe_def NewWithHandler_def world0_def MaxCount_def counting_def Add_def Let_def
      Evict_def evict_loop.simps Back_def ask_Evict_def notify_Added_def notify_Removed_def
      removeElement_def MoveToFront_def Remove_list_def entries_def Get_def Len_def)

subsection \<open>C6: Get\<close>

text \<open>
  Claim C6. On every well-formed cache: if \<open>k\<close> is cached with value \<open>x\<close>, \<^verbatim>\<open>Get(k)\<close>
  returns \<open>x\<close> and true and moves the entry of \<open>k\<close> to the front, the other entries
  keeping their order, and \<^verbatim>\<open>Len\<close> stays as it was; if \<open>k\<close> is not cached, \<^verbatim>\<open>Get(k)\<close>
  returns the zero value and false and changes nothing: the cache and the world,
  including the log of calls on the handler and the policy, are returned as they were.
\<close>

theorem Get_touches_or_misses:
  assumes "rep_inv c w"
  shows "case stored k (entries c w) of
           Some x \<Rightarrow>
             k \<in> set (keys_of c w) \<and> \<lparr>key = k, val = x\<rparr> \<in> set (entries c w) \<and>
             (\<exists>c'. Get k c w = ((x, True), c', w) \<and> rep_inv c' w \<and>
                entries c' w = \<lparr>key = k, val = x\<rparr> # filter (\<lambda>e. key e \<noteq> k) (entries c w) \<and>
                Len c' = Len c)
         | None \<Rightarrow> k \<notin> set (keys_of c w) \<and> Get k c w = ((0, False), c, w)"
proof (cases "stored k (entries c w)")
  case None
  with Get_abs [OF assms, of k] stored_None_iff [of k "entries c w"] show ?thesis
    by (simp add: keys_of_entries)
next
  case (Some x)
  from stored_Some_mem [OF Some] have mem: "\<lparr>key = k, val = x\<rparr> \<in> set (entries c w)" .
  then have k: "k \<in> key ` set (entries c w)" by force
  from Get_abs [OF assms, of k] Some obtain c' where
    res: "Get k c w = ((x, True), c', w)" and inv': "rep_inv c' w"
    and ent: "entries c' w = \<lparr>key = k, val = x\<rparr> # filter (\<lambda>e. key e \<noteq> k) (entries c w)"
    by auto
  from length_filter_other_keys [OF rep_inv_distinct_entries [OF assms] k]
  have "length (entries c' w) = length (entries c w)" by (simp add: ent)
  then have "Len c' = Len c" by (simp add: Len_entries [OF assms] Len_entries [OF inv'])
  with Some mem k res inv' ent show ?thesis by (simp add: keys_of_entries)
qed

theorem Get_touches_or_misses_witness:
  "rep_inv cache3 world3 \<and>
   (\<exists>c'. Get 1 cache3 world3 = ((10, True), c', world3) \<and>
      entries c' world3 = [\<lparr>key = 1, val = 10\<rparr>, \<lparr>key = 3, val = 30\<rparr>, \<lparr>key = 2, val = 20\<rparr>] \<and>
      Len c' = Len cache3) \<and>
   Get 7 cache3 world3 = ((0, False), cache3, world3)"
proof -
  have s1: "stored (1::int) [\<lparr>key = 3, val = 30\<rparr>, \<lparr>key = 2, val = 20\<rparr>, \<lparr>key = 1, val = 10::int\<rparr>] = Some 10"
    and s7: "stored (7::int) [\<lparr>key = 3, val = 30\<rparr>, \<lparr>key = 2, val = 20\<rparr>, \<lparr>key = 1, val = 10::int\<rparr>] = None"
    by (simp_all add: stored_def)
  from Get_touches_or_misses [OF rep_inv_cache3, of 1] Get_touches_or_misses [OF rep_inv_cache3, of 7]
    rep_inv_cache3
  show ?thesis by (auto simp: s1 s7 entries_cache3)
qed

subsection \<open>C8: Remove\<close>

text \<open>
  Claim C8. On every well-formed cache: if \<open>k\<close> is cached with value \<open>x\<close>, \<^verbatim>\<open>Remove(k)\<close>
  returns true, takes the entry of \<open>k\<close> out of the list, the other entries keeping their
  order, deletes \<open>k\<close> from the index, and calls \<^verbatim>\<open>Removed(k, x)\<close> once when a handler
  is configured and nothing otherwise; if \<open>k\<close> is not cached, \<^verbatim>\<open>Remove(k)\<close> returns false
  and changes nothing. \<^verbatim>\<open>Remove\<close> has no error result: its model returns a plain triple.
\<close>

theorem Remove_present_or_absent:
  assumes "rep_inv c w"
  shows "case stored k (entries c w) of
           Some x \<Rightarrow>
             \<exists>c' w' m. Remove k c w = (True, c', w') \<and> rep_inv c' w' \<and>
               entries c' w' = filter (\<lambda>e. key e \<noteq> k) (entries c w) \<and>
               cache c = Some m \<and> m k \<noteq> None \<and> cache c' = Some (m(k := None)) \<and>
               env w' = Removed_effect (Handler c) k x (env w) \<and>
               calls w' = calls w @ Removed_log (Handler c) k x
         | None \<Rightarrow> Remove k c w = (False, c, w)"
proof (cases "stored k (entries c w)")
  case None
  with Remove_abs [OF assms, of k] show ?thesis by simp
next
  case (Some x)
  with Remove_abs [OF assms, of k] obtain c' w' m where
    r: "Remove k c w = (True, c', w')" "rep_inv c' w'"
      "entries c' w' = filter (\<lambda>e. key e \<noteq> k) (entries c w)"
      "cache c = Some m" "cache c' = Some (m(k := None))"
      "env w' = Removed_effect (Handler c) k x (env w)"
      "calls w' = calls w @ Removed_log (Handler c) k x"
    by auto
  from rep_inv_ll [OF assms r(4)] obtain l where l: "ll c = Some l" by auto
  from stored_Some_iff [OF assms l r(4), of k x] Some have "m k \<noteq> None" by auto
  with r Some show ?thesis by auto
qed

theorem Remove_present_or_absent_witness:
  "rep_inv cache3 world3 \<and>
   (\<exists>c' w'. Remove 2 cache3 world3 = (True, c', w') \<and>
      entries c' w' = [\<lparr>key = 3, val = 30\<rparr>, \<lparr>key = 1, val = 10\<rparr>] \<and>
      cache c' = Some ([1 \<mapsto> 0, 2 \<mapsto> 1, 3 \<mapsto> 2](2 := None)) \<and>
      env w' = 4 \<and> calls w' = [RemovedCall 2 20]) \<and>
   Remove 7 cache3 world3 = (False, cache3, world3)"
proof -
  have s2: "stored (2::int) [\<lparr>key = 3, val = 30\<rparr>, \<lparr>key = 2, val = 20\<rparr>, \<lparr>key = 1, val = 10::int\<rparr>] = Some 20"
    and s7: "stored (7::int) [\<lparr>key = 3, val = 30\<rparr>, \<lparr>key = 2, val = 20\<rparr>, \<lparr>key = 1, val = 10::int\<rparr>] = None"
    by (simp_all add: stored_def)
  have H: "Handler cache3 = Some counting" "env world3 = 3" "calls world3 = []"
    "cache cache3 = Some [1 \<mapsto> 0, 2 \<mapsto> 1, 3 \<mapsto> 2]"
    by (simp_all add: cache3_def world3_def)
  from Remove_present_or_absent [OF rep_inv_cache3, of 2]
    Remove_present_or_absent [OF rep_inv_cache3, of 7] rep_inv_cache3
  show ?thesis by (auto simp: s2 s7 H entries_cache3 counting_def)
qed

subsection \<open>C9: Clear\<close>



subsection \<open>C5: the index and the list correspond\<close>



subsection \<open>C4: most recently touched first\<close>

text \<open>
  Claim C4. Every program of \<^verbatim>\<open>Add\<close> and \<^verbatim>\<open>Get\<close> calls on a constructed or
  zero-initialised cache returns, and the cached keys from front to back are then an
  initial segment of the keys touched, ordered by their last touch, the latest first: the
  list is in most-recently-touched-first order and the keys evicted are the least
  recently touched. For distinct keys \<open>ka\<close>, \<open>kb\<close>, \<open>kc\<close> and a maximum count of 2,
  \<^verbatim>\<open>Add(ka); Add(kb); Get(ka); Add(kc)\<close> leaves \<open>kc\<close>, \<open>ka\<close> cached, in this order: the
  policy is asked about \<open>kb\<close> with count 3 and \<open>kb\<close> is evicted.
\<close>

theorem most_recently_touched_first:
  assumes "list_all Add_or_Get xs" and "c0 = NewWithHandler p h \<or> c0 = zero_Cache p h"
  shows "(\<exists>rs c w'. run xs c0 w = Inr (rs, c, w') \<and>
            prefix (keys_of c w') (most_recent_first (touches xs c0 w))) \<and>
         (ka \<noteq> kb \<and> kb \<noteq> kc \<and> ka \<noteq> kc \<longrightarrow>
            (\<exists>rs c w'. run [OpAdd ka va, OpAdd kb vb, OpGet ka, OpAdd kc vc]
                 (NewWithHandler (Some (MaxCount 2)) h) w = Inr (rs, c, w') \<and>
               keys_of c w' = [kc, ka] \<and>
               stored kb (entries c w') = None \<and> stored ka (entries c w') = Some va \<and>
               calls w' = calls w @ Added_log h ka 0 va False @ [EvictCall ka va 1] @
                 Added_log h kb 0 vb False @ [EvictCall ka va 2] @
                 Added_log h kc 0 vc False @ [EvictCall kb vb 3] @ Removed_log h kb vb @
                 [EvictCall ka va 2]))"
proof
  from assms(2) have inv: "rep_inv c0 w"
    using rep_inv_NewWithHandler [of p h w] rep_inv_zero_Cache [of p h w] by auto
  from assms(2) have e: "keys_of c0 w = []"
    by (auto simp: keys_of_def entries_def NewWithHandler_def zero_Cache_def)
  from run_touches [OF inv assms(1), of "[]"] e
  show "\<exists>rs c w'. run xs c0 w = Inr (rs, c, w') \<and>
      prefix (keys_of c w') (most_recent_first (touches xs c0 w))"
    by auto
next
  show "ka \<noteq> kb \<and> kb \<noteq> kc \<and> ka \<noteq> kc \<longrightarrow>
      (\<exists>rs c w'. run [OpAdd ka va, OpAdd kb vb, OpGet ka, OpAdd kc vc]
           (NewWithHandler (Some (MaxCount 2)) h) w = Inr (rs, c, w') \<and>
         keys_of c w' = [kc, ka] \<and>
         stored kb (entries c w') = None \<and> stored ka (entries c w') = Some va \<and>
         calls w' = calls w @ Added_log h ka 0 va False @ [EvictCall ka va 1] @
           Added_log h kb 0 vb False @ [EvictCall ka va 2] @
           Added_log h kc 0 vc False @ [EvictCall kb vb 3] @ Removed_log h kb vb @
           [EvictCall ka va 2])"
  proof
    assume d: "ka \<noteq> kb \<and> kb \<noteq> kc \<and> ka \<noteq> kc"
    then have "ka \<noteq> kb" "kb \<noteq> kc" "ka \<noteq> kc" by simp_all
    from touch_on_read [OF this, of va vb vc h w] obtain rs c w' where
      r: "run [OpAdd ka va, OpAdd kb vb, OpGet ka, OpAdd kc vc]
            (NewWithHandler (Some (MaxCount 2)) h) w = Inr (rs, c, w')"
      and ent: "entries c w' = [\<lparr>key = kc, val = vc\<rparr>, \<lparr>key = ka, val = va\<rparr>]"
      and cl: "calls w' = calls w @ Added_log h ka 0 va False @ [EvictCall ka va 1] @
           Added_log h kb 0 vb False @ [EvictCall ka va 2] @
           Added_log h kc 0 vc False @ [EvictCall kb vb 3] @ Removed_log h kb vb @ [EvictCall ka va 2]"
      by blast
    from ent d have "keys_of c w' = [kc, ka]" "stored kb (entries c w') = None"
      "stored ka (entries c w') = Some va"
      by (auto simp: keys_of_def stored_def)
    with r cl show "\<exists>rs c w'. run [OpAdd ka va, OpAdd kb vb, OpGet ka, OpAdd kc vc]
           (NewWithHandler (Some (MaxCount 2)) h) w = Inr (rs, c, w') \<and>
         keys_of c w' = [kc, ka] \<and>
         stored kb (entries c w') = None \<and> stored ka (entries c w') = Some va \<and>
         calls w' = calls w @ Added_log h ka 0 va False @ [EvictCall ka va 1] @
           Added_log h kb 0 vb False @ [EvictCall ka va 2] @
           Added_log h kc 0 vc False @ [EvictCall kb vb 3] @ Removed_log h kb vb @
           [EvictCall ka va 2]"
      by blast
  qed
qed

theorem most_recently_touched_first_witness:
  "list_all Add_or_Get ([OpAdd 1 10, OpAdd 2 20, OpGet 1, OpAdd 3 30, OpGet 2] :: (int, int) op list) \<and>
   (\<exists>rs c w'. run [OpAdd 1 10, OpAdd 2 20, OpGet 1, OpAdd 3 30, OpGet 2]
        (NewWithHandler (Some (MaxCount 2)) None) world0 = Inr (rs, c, w') \<and>
      prefix (keys_of c w') [3, 1, 2]) \<and>
   (\<exists>rs c w'. run [OpAdd 1 10, OpAdd 2 20, OpGet 1, OpAdd 3 30]
        (NewWithHandler (Some (MaxCount 2)) None) world0 = Inr (rs, c, w') \<and>
      keys_of c w' = [3, 1] \<and> stored 2 (entries c w') = None)"
proof -
  let ?xs = "[OpAdd 1 10, OpAdd 2 20, OpGet 1, OpAdd 3 30, OpGet 2] :: (int, int) op list"
  let ?c0 = "NewWithHandler (Some (MaxCount 2)) None :: (int, int, nat) Cache"
  have ag: "list_all Add_or_Get ?xs" by simp
  have m: "most_recent_first [1, 2, 1, 3 :: int] = [3, 1, 2]"
    by (simp add: most_recent_first_def)
  have c0: "?c0 = NewWithHandler (Some (MaxCount 2)) None \<or> ?c0 = zero_Cache (Some (MaxCount 2)) None"
    by simp
  note T = most_recently_touched_first [OF ag c0, where w = world0 and ka = 1 and kb = 2
      and kc = 3 and va = 10 and vb = 20 and vc = 30]
  from T have "\<exists>rs c w'. run ?xs ?c0 world0 = Inr (rs, c, w') \<and>
      prefix (keys_of c w') (most_recent_first (touches ?xs ?c0 world0))"
    by (rule conjunct1)
  then have A: "\<exists>rs c w'. run ?xs ?c0 world0 = Inr (rs, c, w') \<and> prefix (keys_of c w') [3, 1, 2]"
    unfolding touches_example m .
  have d: "(1::int) \<noteq> 2 \<and> (2::int) \<noteq> 3 \<and> (1::int) \<noteq> 3" by simp
  from T [THEN conjunct2, THEN mp, OF d]
  have B: "\<exists>rs c w'. run [OpAdd 1 10, OpAdd 2 20, OpGet 1, OpAdd 3 30] ?c0 world0 = Inr (rs, c, w') \<and>
         keys_of c w' = [3, 1] \<and> stored 2 (entries c w') = None"
    by blast
  from ag A B show ?thesis by (intro conjI)
qed

end
